theory Spec2Isabelle
  imports Complex_Main "HOL-Library.Product_Lexorder" "HOL-Library.Sublist" "HOL-Library.Multiset"
begin

section \<open>Subsampling of alchemical time series: the data model\<close>

text \<open>
  The module \<^verbatim>\<open>alchemlyb/preprocessing/subsampling.py\<close> works on a pandas
  DataFrame whose index has the levels \<^verbatim>\<open>(time, lambda...)\<close>. A row is modelled by
  its time, its lambda-state key (all index levels after the first; any linearly ordered
  type) and its cells, read by column label. A DataFrame is rectangular, so every row has
  a cell under every label of the frame. Times and cells are floats in the source; the
  module only compares times and passes cells on, and both are real numbers here.
\<close>

record 'k row =
  time :: real
  lam :: 'k
  cell :: "string \<Rightarrow> real"

record 'k DataFrame =
  columns :: "string list"
  rows :: "'k row list"

text \<open>
  The exceptions the module raises or lets through. Both "Duplicate time values found"
  messages are a Python \<^verbatim>\<open>KeyError\<close>; so is the lookup of a label that is not a
  column. \<^verbatim>\<open>pd.concat\<close> of an empty list and a slice step of zero are a
  \<^verbatim>\<open>ValueError\<close>; a position outside the frame is an \<^verbatim>\<open>IndexError\<close>.
  \<open>ParameterError\<close> stands for a failure of the correlation analysis of
  \<^verbatim>\<open>pymbar.timeseries\<close>.
\<close>

datatype error =
    KeyError_duplicate_times
  | KeyError_label "string option"
  | ValueError_no_objects
  | ValueError_slice_step
  | IndexError_position
  | ParameterError

text \<open>The \<^verbatim>\<open>how\<close> argument: one of the five strings of the docstring.\<close>

datatype how = Auto | Right | Left | Random | Sum

text \<open>
  \<^verbatim>\<open>pymbar.timeseries\<close> is not part of this module: its three routines are
  parameters of the model. Each takes the observable series; a raise is an \<open>Inl\<close>.
  \<^verbatim>\<open>subsampleCorrelatedData(A_t, g, conservative)\<close> returns row positions,
  \<^verbatim>\<open>detectEquilibration(A_t)\<close> returns \<^verbatim>\<open>(t, g, Neff_max)\<close>.
\<close>

record timeseries =
  statisticalInefficiency :: "real list \<Rightarrow> error + real"
  subsampleCorrelatedData :: "real list \<Rightarrow> real \<Rightarrow> bool \<Rightarrow> error + nat list"
  detectEquilibration :: "real list \<Rightarrow> error + (nat \<times> real \<times> real)"

text \<open>
  \<^verbatim>\<open>calculated = defaultdict(dict)\<close>: a dictionary of dictionaries, the outer one
  keyed by the name of the statistic, the inner one by the lambda-state key.
\<close>

type_synonym 'k calculated = "string \<rightharpoonup> ('k \<rightharpoonup> real)"

section \<open>The pandas operations the module uses\<close>

text \<open>\<^verbatim>\<open>data.sort_index()\<close>: a stable sort on the whole index, time outermost.\<close>

definition sort_index :: "('k::linorder) DataFrame \<Rightarrow> 'k DataFrame" where
  "sort_index data = data\<lparr>rows := sort_key (\<lambda>r. (time r, lam r)) (rows data)\<rparr>"

text \<open>
  \<^verbatim>\<open>data.groupby(level=index_names)\<close> with \<^verbatim>\<open>index_names\<close> all levels but time:
  the groups in ascending order of their key, each with its rows in the order of the frame.
\<close>

definition groupby :: "('k::linorder) DataFrame \<Rightarrow> ('k \<times> 'k DataFrame) list" where
  "groupby data =
     map (\<lambda>name. (name, data\<lparr>rows := filter (\<lambda>r. lam r = name) (rows data)\<rparr>))
       (sort (remdups (map lam (rows data))))"

definition in_bounds :: "real option \<Rightarrow> real option \<Rightarrow> real \<Rightarrow> bool" where
  "in_bounds lower upper t =
     ((case lower of None \<Rightarrow> True | Some l \<Rightarrow> l \<le> t) \<and>
      (case upper of None \<Rightarrow> True | Some u \<Rightarrow> t \<le> u))"

definition every_nth :: "nat \<Rightarrow> 'a list \<Rightarrow> 'a list" where
  "every_nth s xs = map (nth xs) (filter (\<lambda>i. i mod s = 0) [0..<length xs])"

text \<open>
  \<^verbatim>\<open>group.loc[lower:upper:step]\<close> on a frame sorted by time. The step is any
  integer or \<^verbatim>\<open>None\<close>, passed on as it is. Without a step, or with a positive one,
  the slice keeps the rows whose time lies between the bounds (both inclusive,
  \<^verbatim>\<open>None\<close> is no bound) and then every \<^verbatim>\<open>step\<close>-th of those from the first
  one. A negative step walks the frame backwards: the slice then starts at
  \<^verbatim>\<open>lower\<close> and stops at \<^verbatim>\<open>upper\<close>, so it keeps the rows with
  \<open>upper \<le> time \<le> lower\<close>, latest first, and every \<open>|step|\<close>-th of those from the
  latest one. A step of zero raises.
\<close>

definition loc :: "'k DataFrame \<Rightarrow> real option \<Rightarrow> real option \<Rightarrow> int option \<Rightarrow> error + 'k DataFrame" where
  "loc grp lower upper step =
     (case step of
        None \<Rightarrow> Inr (grp\<lparr>rows := filter (\<lambda>r. in_bounds lower upper (time r)) (rows grp)\<rparr>)
      | Some s \<Rightarrow>
          if s = 0 then Inl ValueError_slice_step
          else if 0 < s
          then Inr (grp\<lparr>rows := every_nth (nat s)
                       (filter (\<lambda>r. in_bounds lower upper (time r)) (rows grp))\<rparr>)
          else Inr (grp\<lparr>rows := every_nth (nat (- s))
                       (rev (filter (\<lambda>r. in_bounds upper lower (time r)) (rows grp)))\<rparr>))"

text \<open>\<^verbatim>\<open>group_s.iloc[t:]\<close> and \<^verbatim>\<open>group_s.iloc[indices]\<close>.\<close>

definition iloc_from :: "'k DataFrame \<Rightarrow> nat \<Rightarrow> 'k DataFrame" where
  "iloc_from df t = df\<lparr>rows := drop t (rows df)\<rparr>"

definition iloc :: "'k DataFrame \<Rightarrow> nat list \<Rightarrow> error + 'k DataFrame" where
  "iloc df indices =
     (if \<forall>i \<in> set indices. i < length (rows df)
      then Inr (df\<lparr>rows := map (nth (rows df)) indices\<rparr>)
      else Inl IndexError_position)"

text \<open>
  \<^verbatim>\<open>group_s[column]\<close>: the series under a label; \<^verbatim>\<open>None\<close> is no label
  and raises, as a label that is not a column does. A \<^verbatim>\<open>Series\<close> passed as
  \<^verbatim>\<open>column\<close> is not modelled.
\<close>

definition getitem :: "'k DataFrame \<Rightarrow> string option \<Rightarrow> error + real list" where
  "getitem df column =
     (case column of
        None \<Rightarrow> Inl (KeyError_label None)
      | Some c \<Rightarrow> if c \<in> set (columns df) then Inr (map (\<lambda>r. cell r c) (rows df))
                  else Inl (KeyError_label (Some c)))"

text \<open>\<^verbatim>\<open>pd.concat(resdata)\<close>: raises on an empty list.\<close>

definition pd_concat :: "'k DataFrame list \<Rightarrow> error + 'k DataFrame" where
  "pd_concat resdata =
     (case resdata of
        [] \<Rightarrow> Inl ValueError_no_objects
      | df # _ \<Rightarrow> Inr (df\<lparr>rows := concat (map rows resdata)\<rparr>))"

text \<open>\<^verbatim>\<open>calculated[key][name] = v\<close> on the \<^verbatim>\<open>defaultdict(dict)\<close>.\<close>

definition setitem :: "'k calculated \<Rightarrow> string \<Rightarrow> 'k \<Rightarrow> real \<Rightarrow> 'k calculated" where
  "setitem calculated key name v =
     calculated(key \<mapsto> (case calculated key of None \<Rightarrow> Map.empty | Some d \<Rightarrow> d)(name \<mapsto> v))"

text \<open>
  \<^verbatim>\<open>for name, group in data.groupby(...)\<close>: the body runs on each group in turn
  and updates the loop's variables; the first raise ends the call.
\<close>

fun for_groups :: "('k \<Rightarrow> 'k DataFrame \<Rightarrow> 's \<Rightarrow> error + 's) \<Rightarrow> ('k \<times> 'k DataFrame) list \<Rightarrow> 's \<Rightarrow> error + 's" where
  "for_groups body [] s = Inr s"
| "for_groups body ((name, grp) # gs) s =
     (case body name grp s of Inl e \<Rightarrow> Inl e | Inr s' \<Rightarrow> for_groups body gs s')"

section \<open>The module\<close>

definition check_multiple_times :: "'k DataFrame \<Rightarrow> bool" where
  "check_multiple_times data = (\<not> distinct (map time (rows data)))"

definition slicing_body ::
  "real option \<Rightarrow> real option \<Rightarrow> int option \<Rightarrow> bool \<Rightarrow>
   'k \<Rightarrow> 'k DataFrame \<Rightarrow> 'k DataFrame list \<Rightarrow> error + 'k DataFrame list" where
  "slicing_body lower upper step force name grp resdata =
     (case loc grp lower upper step of
        Inl e \<Rightarrow> Inl e
      | Inr group_s \<Rightarrow>
          if \<not> force \<and> check_multiple_times group_s then Inl KeyError_duplicate_times
          else Inr (resdata @ [group_s]))"

definition slicing ::
  "('k::linorder) DataFrame \<Rightarrow> real option \<Rightarrow> real option \<Rightarrow> int option \<Rightarrow> bool \<Rightarrow>
   error + 'k DataFrame" where
  "slicing data lower upper step force =
     (case for_groups (slicing_body lower upper step force) (groupby (sort_index data)) [] of
        Inl e \<Rightarrow> Inl e
      | Inr resdata \<Rightarrow> pd_concat resdata)"

text \<open>
  \<^verbatim>\<open>statistical_inefficiency\<close>. The source has the line \<^verbatim>\<open>if column:\<close> with no
  body before the loop; the loop stands at the indentation of that line, so it is not
  under the guard, and the guard does nothing. The argument \<^verbatim>\<open>how\<close> is never read.
  The pre-slicing calls \<^verbatim>\<open>slicing\<close> without \<^verbatim>\<open>force\<close>, that is with its default
  \<^verbatim>\<open>False\<close>, and the check that follows looks at the group before slicing.
\<close>

definition statistical_inefficiency_body ::
  "timeseries \<Rightarrow> string option \<Rightarrow> real option \<Rightarrow> real option \<Rightarrow> int option \<Rightarrow> bool \<Rightarrow> bool \<Rightarrow> bool \<Rightarrow>
   ('k::linorder) \<Rightarrow> 'k DataFrame \<Rightarrow> 'k DataFrame list \<times> 'k calculated \<Rightarrow>
   error + ('k DataFrame list \<times> 'k calculated)" where
  "statistical_inefficiency_body ts column lower upper step conservative return_calculated force
       name grp st =
     (case slicing grp lower upper step False of
        Inl e \<Rightarrow> Inl e
      | Inr group_s \<Rightarrow>
          if \<not> force \<and> check_multiple_times grp then Inl KeyError_duplicate_times
          else
            (case getitem group_s column of
               Inl e \<Rightarrow> Inl e
             | Inr series \<Rightarrow>
                 (case statisticalInefficiency ts series of
                    Inl e \<Rightarrow> Inl e
                  | Inr statinef \<Rightarrow>
                      (case subsampleCorrelatedData ts series statinef conservative of
                         Inl e \<Rightarrow> Inl e
                       | Inr indices \<Rightarrow>
                           (case iloc group_s indices of
                              Inl e \<Rightarrow> Inl e
                            | Inr sel \<Rightarrow>
                                Inr (fst st @ [sel],
                                     if return_calculated
                                     then setitem (snd st) ''statinef'' name statinef
                                     else snd st))))))"

definition statistical_inefficiency ::
  "timeseries \<Rightarrow> ('k::linorder) DataFrame \<Rightarrow> how \<Rightarrow> string option \<Rightarrow>
   real option \<Rightarrow> real option \<Rightarrow> int option \<Rightarrow> bool \<Rightarrow> bool \<Rightarrow> bool \<Rightarrow>
   error + ('k DataFrame \<times> 'k calculated option)" where
  "statistical_inefficiency ts data how column lower upper step conservative return_calculated force =
     (case for_groups
             (statistical_inefficiency_body ts column lower upper step conservative
                return_calculated force)
             (groupby (sort_index data)) ([], Map.empty) of
        Inl e \<Rightarrow> Inl e
      | Inr (resdata, calculated) \<Rightarrow>
          (case pd_concat resdata of
             Inl e \<Rightarrow> Inl e
           | Inr out \<Rightarrow> Inr (out, if return_calculated then Some calculated else None)))"

text \<open>
  \<^verbatim>\<open>equilibrium_detection\<close>. The three entries of \<^verbatim>\<open>calculated\<close> are all
  assigned \<^verbatim>\<open>statinef\<close>, as in the source; \<^verbatim>\<open>how\<close> is never read.
\<close>

definition equilibrium_detection_body ::
  "timeseries \<Rightarrow> string option \<Rightarrow> real option \<Rightarrow> real option \<Rightarrow> int option \<Rightarrow> bool \<Rightarrow> bool \<Rightarrow> bool \<Rightarrow>
   ('k::linorder) \<Rightarrow> 'k DataFrame \<Rightarrow> 'k DataFrame list \<times> 'k calculated \<Rightarrow>
   error + ('k DataFrame list \<times> 'k calculated)" where
  "equilibrium_detection_body ts column lower upper step conservative return_calculated force
       name grp st =
     (case slicing grp lower upper step False of
        Inl e \<Rightarrow> Inl e
      | Inr group_s \<Rightarrow>
          if \<not> force \<and> check_multiple_times grp then Inl KeyError_duplicate_times
          else
            (case getitem group_s column of
               Inl e \<Rightarrow> Inl e
             | Inr series \<Rightarrow>
                 (case detectEquilibration ts series of
                    Inl e \<Rightarrow> Inl e
                  | Inr (t, statinef, Neff_max) \<Rightarrow>
                      (let group_t = iloc_from group_s t in
                       case getitem group_t column of
                         Inl e \<Rightarrow> Inl e
                       | Inr series_t \<Rightarrow>
                           (case subsampleCorrelatedData ts series_t statinef conservative of
                              Inl e \<Rightarrow> Inl e
                            | Inr indices \<Rightarrow>
                                (case iloc group_t indices of
                                   Inl e \<Rightarrow> Inl e
                                 | Inr sel \<Rightarrow>
                                     Inr (fst st @ [sel],
                                          if return_calculated
                                          then setitem (setitem (setitem (snd st)
                                                 ''t'' name statinef)
                                                 ''statinef'' name statinef)
                                                 ''Neff_max'' name statinef
                                          else snd st)))))))"

definition equilibrium_detection ::
  "timeseries \<Rightarrow> ('k::linorder) DataFrame \<Rightarrow> how \<Rightarrow> string option \<Rightarrow>
   real option \<Rightarrow> real option \<Rightarrow> int option \<Rightarrow> bool \<Rightarrow> bool \<Rightarrow> bool \<Rightarrow>
   error + ('k DataFrame \<times> 'k calculated option)" where
  "equilibrium_detection ts data how column lower upper step conservative return_calculated force =
     (case for_groups
             (equilibrium_detection_body ts column lower upper step conservative
                return_calculated force)
             (groupby (sort_index data)) ([], Map.empty) of
        Inl e \<Rightarrow> Inl e
      | Inr (resdata, calculated) \<Rightarrow>
          (case pd_concat resdata of
             Inl e \<Rightarrow> Inl e
           | Inr out \<Rightarrow> Inr (out, if return_calculated then Some calculated else None)))"

section \<open>The subsample-index routine, and collaborators to run the module with\<close>

text \<open>Python's \<^verbatim>\<open>round\<close> on a float: to the nearest integer, a half to the even one.\<close>

definition py_round :: "real \<Rightarrow> int" where
  "py_round x =
     (let f = \<lfloor>x\<rfloor>; d = x - of_int f
      in if d < 1 / 2 then f else if 1 / 2 < d then f + 1 else if even f then f else f + 1)"

text \<open>
  Modelled from the spec: the subsample-index routine of the correlation-analysis
  collaborator (\<^verbatim>\<open>pymbar.timeseries.subsampleCorrelatedData\<close>, which is not part of
  the repository), for a series of \<open>T\<close> values and an inefficiency \<open>g \<ge> 1\<close>, the
  collaborator's contract. With \<^verbatim>\<open>conservative\<close> the stride is \<open>g\<close> rounded up
  and the positions are \<open>0, stride, 2 * stride, ...\<close> below \<open>T\<close>; without it the
  positions are \<open>round (n * g)\<close> for \<open>n = 0, 1, 2, ...\<close> as long as they are below
  \<open>T\<close> (for \<open>g \<ge> 1\<close> that ends at \<open>n = T\<close> at the latest).
\<close>

definition uniform_indices :: "nat \<Rightarrow> real \<Rightarrow> nat list" where
  "uniform_indices T g = filter (\<lambda>i. i mod nat \<lceil>g\<rceil> = 0) [0..<T]"

definition fractional_indices :: "nat \<Rightarrow> real \<Rightarrow> nat list" where
  "fractional_indices T g =
     takeWhile (\<lambda>t. t < T) (map (\<lambda>n. nat (py_round (real n * g))) [0..<Suc T])"

definition subsample_indices :: "real list \<Rightarrow> real \<Rightarrow> bool \<Rightarrow> error + nat list" where
  "subsample_indices A_t g conservative =
     Inr (if conservative then uniform_indices (length A_t) g
          else fractional_indices (length A_t) g)"

text \<open>
  A collaborator that reports the cutoff \<open>t\<close>, the inefficiency \<open>g\<close> and the
  effective sample size \<open>n\<close> for every series, and one that fails on the empty series.
\<close>

definition reporting :: "nat \<Rightarrow> real \<Rightarrow> real \<Rightarrow> timeseries" where
  "reporting t g n =
     \<lparr>statisticalInefficiency = (\<lambda>A_t. Inr g),
      subsampleCorrelatedData = subsample_indices,
      detectEquilibration = (\<lambda>A_t. Inr (t, g, n))\<rparr>"

definition reporting_nonempty :: "nat \<Rightarrow> real \<Rightarrow> real \<Rightarrow> timeseries" where
  "reporting_nonempty t g n =
     \<lparr>statisticalInefficiency = (\<lambda>A_t. if A_t = [] then Inl ParameterError else Inr g),
      subsampleCorrelatedData = subsample_indices,
      detectEquilibration = (\<lambda>A_t. if A_t = [] then Inl ParameterError else Inr (t, g, n))\<rparr>"

text \<open>Frames to run the module on: a row with the value \<open>v\<close> in every column.\<close>

definition mk_row :: "real \<Rightarrow> 'k \<Rightarrow> real \<Rightarrow> 'k row" where
  "mk_row t k v = \<lparr>time = t, lam = k, cell = (\<lambda>c. v)\<rparr>"

definition mk_frame :: "'k row list \<Rightarrow> 'k DataFrame" where
  "mk_frame rs = \<lparr>columns = [''fep''], rows = rs\<rparr>"

section \<open>What one pass of a loop body computes\<close>

text \<open>
  Each loop body computes a result from the group alone and then appends it to
  \<^verbatim>\<open>resdata\<close> (and stores the inefficiency in \<^verbatim>\<open>calculated\<close>). The three
  functions below are the bodies without that bookkeeping.
\<close>

definition slicing_group ::
  "real option \<Rightarrow> real option \<Rightarrow> int option \<Rightarrow> bool \<Rightarrow> 'k DataFrame \<Rightarrow> error + 'k DataFrame" where
  "slicing_group lower upper step force grp =
     (case loc grp lower upper step of
        Inl e \<Rightarrow> Inl e
      | Inr group_s \<Rightarrow>
          if \<not> force \<and> check_multiple_times group_s then Inl KeyError_duplicate_times
          else Inr group_s)"

definition statistical_inefficiency_group ::
  "timeseries \<Rightarrow> string option \<Rightarrow> real option \<Rightarrow> real option \<Rightarrow> int option \<Rightarrow> bool \<Rightarrow> bool \<Rightarrow>
   ('k::linorder) DataFrame \<Rightarrow> error + ('k DataFrame \<times> real)" where
  "statistical_inefficiency_group ts column lower upper step conservative force grp =
     (case slicing grp lower upper step False of
        Inl e \<Rightarrow> Inl e
      | Inr group_s \<Rightarrow>
          if \<not> force \<and> check_multiple_times grp then Inl KeyError_duplicate_times
          else
            (case getitem group_s column of
               Inl e \<Rightarrow> Inl e
             | Inr series \<Rightarrow>
                 (case statisticalInefficiency ts series of
                    Inl e \<Rightarrow> Inl e
                  | Inr statinef \<Rightarrow>
                      (case subsampleCorrelatedData ts series statinef conservative of
                         Inl e \<Rightarrow> Inl e
                       | Inr indices \<Rightarrow>
                           (case iloc group_s indices of
                              Inl e \<Rightarrow> Inl e
                            | Inr sel \<Rightarrow> Inr (sel, statinef))))))"

definition equilibrium_detection_group ::
  "timeseries \<Rightarrow> string option \<Rightarrow> real option \<Rightarrow> real option \<Rightarrow> int option \<Rightarrow> bool \<Rightarrow> bool \<Rightarrow>
   ('k::linorder) DataFrame \<Rightarrow> error + ('k DataFrame \<times> real)" where
  "equilibrium_detection_group ts column lower upper step conservative force grp =
     (case slicing grp lower upper step False of
        Inl e \<Rightarrow> Inl e
      | Inr group_s \<Rightarrow>
          if \<not> force \<and> check_multiple_times grp then Inl KeyError_duplicate_times
          else
            (case getitem group_s column of
               Inl e \<Rightarrow> Inl e
             | Inr series \<Rightarrow>
                 (case detectEquilibration ts series of
                    Inl e \<Rightarrow> Inl e
                  | Inr (t, statinef, Neff_max) \<Rightarrow>
                      (case getitem (iloc_from group_s t) column of
                         Inl e \<Rightarrow> Inl e
                       | Inr series_t \<Rightarrow>
                           (case subsampleCorrelatedData ts series_t statinef conservative of
                              Inl e \<Rightarrow> Inl e
                            | Inr indices \<Rightarrow>
                                (case iloc (iloc_from group_s t) indices of
                                   Inl e \<Rightarrow> Inl e
                                 | Inr sel \<Rightarrow> Inr (sel, statinef)))))))"

text \<open>
  The rows that \<^verbatim>\<open>loc\<close> keeps when it does not raise, the two directions of a
  step, and "every group has unique time values".
\<close>

definition loc_rows :: "real option \<Rightarrow> real option \<Rightarrow> int option \<Rightarrow> 'k row list \<Rightarrow> 'k row list" where
  "loc_rows lower upper step rs =
     (case step of
        None \<Rightarrow> filter (\<lambda>r. in_bounds lower upper (time r)) rs
      | Some s \<Rightarrow>
          if 0 < s then every_nth (nat s) (filter (\<lambda>r. in_bounds lower upper (time r)) rs)
          else every_nth (nat (- s)) (rev (filter (\<lambda>r. in_bounds upper lower (time r)) rs)))"

definition forwards :: "int option \<Rightarrow> bool" where
  "forwards step = (case step of None \<Rightarrow> True | Some s \<Rightarrow> 0 < s)"

definition backwards :: "int option \<Rightarrow> bool" where
  "backwards step = (case step of None \<Rightarrow> False | Some s \<Rightarrow> s < 0)"

definition unique_group_times :: "'k DataFrame \<Rightarrow> bool" where
  "unique_group_times data =
     (\<forall>name \<in> lam ` set (rows data).
        distinct (map time (filter (\<lambda>r. lam r = name) (rows data))))"

text \<open>Reading \<^verbatim>\<open>calculated[key][name]\<close>; \<open>None\<close> when there is no such entry.\<close>

definition entry :: "'k calculated \<Rightarrow> string \<Rightarrow> 'k \<Rightarrow> real option" where
  "entry calculated key name = (case calculated key of None \<Rightarrow> None | Some d \<Rightarrow> d name)"

section \<open>Properties of the operations\<close>

subsection \<open>The loop\<close>

lemma fold_snoc_map: "fold (\<lambda>x acc. acc @ [h x]) xs acc = acc @ map h xs"
  by (induction xs arbitrary: acc) simp_all

lemma for_groups_Inr_iff:
  assumes body: "\<And>name grp s. body name grp s =
      (case f grp of Inl e \<Rightarrow> Inl e | Inr y \<Rightarrow> Inr (upd name y s))"
  shows "for_groups body gs s = Inr s' \<longleftrightarrow>
     (\<forall>(name, grp) \<in> set gs. \<exists>y. f grp = Inr y) \<and>
     s' = fold (\<lambda>(name, grp). upd name (projr (f grp))) gs s"
proof (induction gs arbitrary: s)
  case Nil
  show ?case by auto
next
  case (Cons ng gs)
  obtain name grp where ng: "ng = (name, grp)" by (cases ng)
  show ?case
  proof (cases "f grp")
    case (Inl e)
    then show ?thesis by (auto simp: ng body)
  next
    case (Inr y)
    then show ?thesis using Cons.IH [of "upd name y s"] by (simp add: ng body)
  qed
qed

subsection \<open>Sorting and grouping\<close>

lemma sorted_time_sort_index: "sorted (map time (rows (sort_index data)))"
proof -
  have "sorted (map (\<lambda>r. (time r, lam r)) (rows (sort_index data)))"
    by (simp add: sort_index_def)
  then have "sorted_wrt (\<lambda>a b. (time a, lam a) \<le> (time b, lam b)) (rows (sort_index data))"
    by (simp add: sorted_wrt_map)
  then have "sorted_wrt (\<lambda>a b. time a \<le> time b) (rows (sort_index data))"
    by (rule sorted_wrt_mono_rel [rotated]) (auto simp: less_eq_prod_def)
  then show ?thesis by (simp add: sorted_wrt_map)
qed

lemma groupby_keys: "map fst (groupby data) = sort (remdups (map lam (rows data)))"
  by (simp add: groupby_def comp_def)

lemma groupby_keys_sorted: "sorted_wrt (<) (map fst (groupby data))"
  by (simp add: groupby_keys strict_sorted_iff)

lemma groupby_member:
  "(name, grp) \<in> set (groupby data) \<longleftrightarrow>
     name \<in> lam ` set (rows data) \<and> grp = data\<lparr>rows := filter (\<lambda>r. lam r = name) (rows data)\<rparr>"
  by (auto simp: groupby_def)

lemma groupby_eq_Nil: "groupby data = [] \<longleftrightarrow> rows data = []"
proof -
  have "sort (remdups (map lam (rows data))) = [] \<longleftrightarrow> set (sort (remdups (map lam (rows data)))) = {}"
    by (simp only: set_empty)
  then show ?thesis by (simp add: groupby_def)
qed

lemma remdups_constant:
  assumes "xs \<noteq> []" and "\<forall>x \<in> set xs. x = k"
  shows "remdups xs = [k]"
  using assms
proof (induction xs)
  case Nil
  then show ?case by simp
next
  case (Cons a xs)
  have a: "a = k" using Cons.prems(2) by simp
  show ?case
  proof (cases "xs = []")
    case True
    then show ?thesis using a by simp
  next
    case False
    then have "remdups xs = [k]" using Cons.IH Cons.prems(2) by simp
    moreover have "a \<in> set xs"
    proof -
      obtain y where "y \<in> set xs" using False by (cases xs) auto
      then show ?thesis using Cons.prems(2) a by auto
    qed
    ultimately show ?thesis by simp
  qed
qed

lemma groupby_single:
  assumes "rows grp \<noteq> []" and "\<forall>r \<in> set (rows grp). lam r = name"
  shows "groupby grp = [(name, grp)]"
proof -
  have "remdups (map lam (rows grp)) = [name]"
    using assms by (intro remdups_constant) auto
  moreover have "filter (\<lambda>r. lam r = name) (rows grp) = rows grp"
    using assms(2) by (simp add: filter_id_conv)
  ultimately show ?thesis by (simp add: groupby_def)
qed

lemma sort_index_sorted:
  assumes "sorted (map (\<lambda>r. (time r, lam r)) (rows grp))"
  shows "sort_index grp = grp"
  using assms by (simp add: sort_index_def sort_key_id_if_sorted)

lemma loc_eq: "loc grp lower upper step =
   (if step = Some 0 then Inl ValueError_slice_step
    else Inr (grp\<lparr>rows := loc_rows lower upper step (rows grp)\<rparr>))"
  by (simp add: loc_def loc_rows_def split: option.splits)

lemma slicing_body_eq: "slicing_body lower upper step force name grp resdata =
   (case slicing_group lower upper step force grp of
      Inl e \<Rightarrow> Inl e | Inr y \<Rightarrow> Inr ((\<lambda>name y resdata. resdata @ [y]) name y resdata))"
  by (simp add: slicing_body_def slicing_group_def split: sum.splits)

lemma slicing_single_group:
  assumes "rows grp \<noteq> []" and "\<forall>r \<in> set (rows grp). lam r = name"
    and "sorted (map (\<lambda>r. (time r, lam r)) (rows grp))"
  shows "slicing grp lower upper step force = slicing_group lower upper step force grp"
proof -
  have g: "groupby (sort_index grp) = [(name, grp)]"
    using assms by (simp add: sort_index_sorted groupby_single)
  show ?thesis
    by (cases "slicing_group lower upper step force grp")
       (auto simp: slicing_def g slicing_body_eq pd_concat_def slicing_group_def loc_eq
             split: if_splits)
qed

lemma slicing_group_eq:
  "slicing_group lower upper step force grp =
     (if step = Some 0 then Inl ValueError_slice_step
      else if \<not> force \<and> \<not> distinct (map time (loc_rows lower upper step (rows grp)))
           then Inl KeyError_duplicate_times
      else Inr (grp\<lparr>rows := loc_rows lower upper step (rows grp)\<rparr>))"
  by (simp add: slicing_group_def loc_eq check_multiple_times_def)

lemma slicing_group_Inr:
  "slicing_group lower upper step force grp = Inr y \<Longrightarrow>
     y = grp\<lparr>rows := loc_rows lower upper step (rows grp)\<rparr>"
  by (simp add: slicing_group_eq split: if_splits)

lemma rows_sort_index_Nil: "rows (sort_index data) = [] \<longleftrightarrow> rows data = []"
proof -
  have "length (rows (sort_index data)) = length (rows data)"
    by (simp add: sort_index_def)
  then show ?thesis by (metis length_0_conv)
qed

lemma for_groups_appending:
  assumes body: "\<And>name grp s. body name grp s =
      (case f grp of Inl e \<Rightarrow> Inl e | Inr y \<Rightarrow> Inr (s @ [y]))"
  shows "for_groups body gs [] = Inr rd \<longleftrightarrow>
     (\<forall>(name, grp) \<in> set gs. \<exists>y. f grp = Inr y) \<and> rd = map (\<lambda>(name, grp). projr (f grp)) gs"
proof -
  have eq: "(\<lambda>(name, grp). (\<lambda>name y s. s @ [y]) name (projr (f grp)))
          = (\<lambda>x acc. acc @ [(\<lambda>(name, grp). projr (f grp)) x])"
    by (auto simp: fun_eq_iff)
  show ?thesis
    using for_groups_Inr_iff [where body = body and f = f and upd = "\<lambda>name y s. s @ [y]"
        and gs = gs and s = "[]" and s' = rd, OF body]
    by (simp only: eq fold_snoc_map append_Nil)
qed

lemma slicing_Inr_iff:
  "slicing data lower upper step force = Inr out \<longleftrightarrow>
     rows data \<noteq> [] \<and>
     (\<forall>(name, grp) \<in> set (groupby (sort_index data)).
         \<exists>y. slicing_group lower upper step force grp = Inr y) \<and>
     out = (sort_index data)\<lparr>rows := concat (map (\<lambda>(name, grp). loc_rows lower upper step (rows grp))
                                               (groupby (sort_index data)))\<rparr>"
proof -
  let ?D = "sort_index data"
  let ?gs = "groupby ?D"
  let ?f = "slicing_group lower upper step force"
  let ?h = "\<lambda>(name, grp). projr (?f grp)"
  let ?ok = "\<forall>(name, grp) \<in> set ?gs. \<exists>y. ?f grp = Inr y"
  have body: "\<And>name grp s. slicing_body lower upper step force name grp s =
      (case ?f grp of Inl e \<Rightarrow> Inl e | Inr y \<Rightarrow> Inr (s @ [y]))"
    by (simp add: slicing_body_eq)
  note loop = for_groups_appending [where body = "slicing_body lower upper step force" and f = ?f
      and gs = ?gs, OF body]
  show ?thesis
  proof (cases ?ok)
    case False
    then have "\<And>rd. for_groups (slicing_body lower upper step force) ?gs [] \<noteq> Inr rd"
      using loop by blast
    then have "\<exists>e. for_groups (slicing_body lower upper step force) ?gs [] = Inl e"
      by (cases "for_groups (slicing_body lower upper step force) ?gs []") auto
    then show ?thesis using False by (auto simp: slicing_def)
  next
    case True
    then have run: "for_groups (slicing_body lower upper step force) ?gs [] = Inr (map ?h ?gs)"
      using loop by blast
    have rows_h: "map rows (map ?h ?gs) = map (\<lambda>(name, grp). loc_rows lower upper step (rows grp)) ?gs"
    proof -
      have "\<And>x. x \<in> set ?gs \<Longrightarrow> rows (?h x) = (\<lambda>(name, grp). loc_rows lower upper step (rows grp)) x"
      proof -
        fix x assume x: "x \<in> set ?gs"
        obtain name grp where ng: "x = (name, grp)" by (cases x)
        obtain y where y: "?f grp = Inr y" using True x ng by blast
        then show "rows (?h x) = (\<lambda>(name, grp). loc_rows lower upper step (rows grp)) x"
          using slicing_group_Inr [OF y] by (simp add: ng)
      qed
      then show ?thesis by simp
    qed
    show ?thesis
    proof (cases "?gs = []")
      case Nil: True
      then have "rows data = []" by (simp add: groupby_eq_Nil rows_sort_index_Nil)
      then show ?thesis using Nil by (simp add: slicing_def run pd_concat_def)
    next
      case False
      then obtain name grp gs' where gs: "?gs = (name, grp) # gs'" by (cases ?gs) auto
      have ne: "rows data \<noteq> []" using False by (simp add: groupby_eq_Nil rows_sort_index_Nil)
      have grp: "grp = ?D\<lparr>rows := filter (\<lambda>r. lam r = name) (rows ?D)\<rparr>"
        using gs groupby_member [of name grp ?D] by simp
      obtain y where y: "?f grp = Inr y" using True gs by auto
      have hd: "?h (name, grp) = ?D\<lparr>rows := loc_rows lower upper step (rows grp)\<rparr>"
        using slicing_group_Inr [OF y] y grp by simp
      have "pd_concat (map ?h ?gs) = Inr ((?h (name, grp))\<lparr>rows := concat (map rows (map ?h ?gs))\<rparr>)"
        by (simp add: pd_concat_def gs)
      also have "\<dots> = Inr (?D\<lparr>rows := concat (map (\<lambda>(name, grp). loc_rows lower upper step (rows grp)) ?gs)\<rparr>)"
        by (simp only: rows_h hd) simp
      finally have "slicing data lower upper step force =
          Inr (?D\<lparr>rows := concat (map (\<lambda>(name, grp). loc_rows lower upper step (rows grp)) ?gs)\<rparr>)"
        by (simp add: slicing_def run)
      then show ?thesis using True ne by auto
    qed
  qed
qed

subsection \<open>Rows selected by position\<close>

lemma subseq_map_nth:
  assumes "sorted_wrt (<) is" and "\<forall>i \<in> set is. i < length xs"
  shows "subseq (map (nth xs) is) xs"
proof -
  have a: "set is \<subseteq> set [0..<length xs]" using assms(2) by auto
  have b: "sorted_wrt (\<le>) [0..<length xs]" by simp
  have "subseq is [0..<length xs]"
    by (rule sorted_subset_imp_subseq [OF a assms(1) b])
  then have "subseq (map (nth xs) is) (map (nth xs) [0..<length xs])"
    by (rule subseq_map)
  then show ?thesis by (simp add: map_nth)
qed

lemma subseq_set: "subseq ys xs \<Longrightarrow> set ys \<subseteq> set xs"
  by (auto simp: subseq_conv_nths dest: in_set_nthsD)

lemma subseq_every_nth: "subseq (every_nth s xs) xs"
proof -
  have "sorted_wrt (<) [0..<length xs]" by (simp add: strict_sorted_iff)
  then have "sorted_wrt (<) (filter (\<lambda>i. i mod s = 0) [0..<length xs])"
    by (rule sorted_wrt_filter)
  then show ?thesis unfolding every_nth_def by (rule subseq_map_nth) simp
qed

lemma subseq_loc_rows:
  assumes "forwards step"
  shows "subseq (loc_rows lower upper step rs) rs"
proof (cases step)
  case None
  then show ?thesis by (simp add: loc_rows_def)
next
  case (Some s)
  then have s: "0 < s" using assms by (simp add: forwards_def)
  have "subseq (every_nth (nat s) (filter (\<lambda>r. in_bounds lower upper (time r)) rs))
          (filter (\<lambda>r. in_bounds lower upper (time r)) rs)"
    by (rule subseq_every_nth)
  also have "subseq (filter (\<lambda>r. in_bounds lower upper (time r)) rs) rs" by simp
  finally show ?thesis using s by (simp add: loc_rows_def Some)
qed

lemma subseq_loc_rows_rev:
  assumes "\<not> forwards step"
  shows "subseq (loc_rows lower upper step rs) (rev rs)"
proof -
  obtain s where step: "step = Some s" and s: "\<not> 0 < s"
    using assms by (cases step) (simp_all add: forwards_def)
  have "subseq (every_nth (nat (- s)) (rev (filter (\<lambda>r. in_bounds upper lower (time r)) rs)))
          (rev (filter (\<lambda>r. in_bounds upper lower (time r)) rs))"
    by (rule subseq_every_nth)
  also have "rev (filter (\<lambda>r. in_bounds upper lower (time r)) rs)
           = filter (\<lambda>r. in_bounds upper lower (time r)) (rev rs)"
    by (simp add: rev_filter)
  also have "subseq (filter (\<lambda>r. in_bounds upper lower (time r)) (rev rs)) (rev rs)" by simp
  finally show ?thesis using s by (simp add: loc_rows_def step)
qed

lemma set_loc_rows: "set (loc_rows lower upper step rs) \<subseteq> set rs"
proof (cases "forwards step")
  case True
  then show ?thesis by (intro subseq_set subseq_loc_rows)
next
  case False
  then have "set (loc_rows lower upper step rs) \<subseteq> set (rev rs)"
    by (intro subseq_set subseq_loc_rows_rev)
  then show ?thesis by simp
qed

lemma backwards_not_forwards: "backwards step \<Longrightarrow> \<not> forwards step"
  by (cases step) (auto simp: forwards_def backwards_def)

lemma step_direction: "step \<noteq> Some 0 \<Longrightarrow> forwards step \<or> backwards step"
  by (cases step) (auto simp: forwards_def backwards_def)

lemma subseq_sorted_map:
  assumes "subseq ys xs" and "sorted (map f xs)"
  shows "sorted (map f ys)"
proof -
  obtain N where "ys = nths xs N" using assms(1) by (auto simp: subseq_conv_nths)
  then have "map f ys = nths (map f xs) N" by (simp add: nths_map)
  then show ?thesis using assms(2) by (simp add: sorted_nths)
qed

lemma subseq_distinct_map:
  assumes "subseq ys xs" and "distinct (map f xs)"
  shows "distinct (map f ys)"
proof -
  obtain N where "ys = nths xs N" using assms(1) by (auto simp: subseq_conv_nths)
  then have "map f ys = nths (map f xs) N" by (simp add: nths_map)
  then show ?thesis using assms(2) by simp
qed

lemma sorted_wrt_subseq:
  assumes "subseq ys xs" and "sorted_wrt P xs"
  shows "sorted_wrt P ys"
proof -
  have "sorted_wrt P (nths xs N)" for N
    using assms(2)
  proof (induction xs arbitrary: N)
    case Nil
    then show ?case by simp
  next
    case (Cons x xs)
    have "sorted_wrt P (nths xs {j. Suc j \<in> N})" using Cons by simp
    moreover have "\<forall>y \<in> set (nths xs {j. Suc j \<in> N}). P x y"
      using Cons.prems by (auto dest: in_set_nthsD)
    ultimately show ?case by (simp add: nths_Cons)
  qed
  then show ?thesis using assms(1) by (auto simp: subseq_conv_nths)
qed

lemma increasing_times:
  assumes "sorted (map time xs)" and "distinct (map time xs)"
  shows "sorted_wrt (<) (map time xs)"
  using assms by (simp add: strict_sorted_iff)

lemma decreasing_times:
  assumes "sorted (rev (map time xs))" and "distinct (map time xs)"
  shows "sorted_wrt (>) (map time xs)"
proof -
  have "sorted_wrt (<) (rev (map time xs))"
    using assms by (simp add: strict_sorted_iff)
  then show ?thesis by (simp only: sorted_wrt_rev)
qed

lemma subseq_sorted_rev_map:
  assumes "subseq ys xs" and "sorted (rev (map f xs))"
  shows "sorted (rev (map f ys))"
proof -
  have "sorted_wrt (\<lambda>a b. f b \<le> f a) xs"
    using assms(2) by (simp add: sorted_wrt_rev sorted_wrt_map)
  with assms(1) have "sorted_wrt (\<lambda>a b. f b \<le> f a) ys" by (rule sorted_wrt_subseq)
  then show ?thesis by (simp add: sorted_wrt_rev sorted_wrt_map)
qed

subsection \<open>The groups of a sorted frame\<close>

lemma group_rows:
  assumes "(name, grp) \<in> set (groupby (sort_index data))"
  shows "rows grp \<noteq> []" and "\<forall>r \<in> set (rows grp). lam r = name"
    and "sorted (map (\<lambda>r. (time r, lam r)) (rows grp))"
    and "sorted (map time (rows grp))"
    and "rows grp = filter (\<lambda>r. lam r = name) (rows (sort_index data))"
    and "columns grp = columns data"
proof -
  let ?D = "sort_index data"
  have grp: "grp = ?D\<lparr>rows := filter (\<lambda>r. lam r = name) (rows ?D)\<rparr>"
    and name: "name \<in> lam ` set (rows ?D)"
    using assms by (simp_all add: groupby_member)
  show r: "rows grp = filter (\<lambda>r. lam r = name) (rows ?D)" using grp by simp
  show "columns grp = columns data" using grp by (simp add: sort_index_def)
  show "\<forall>r \<in> set (rows grp). lam r = name" by (simp add: r)
  obtain x where "x \<in> set (rows ?D)" "lam x = name" using name by auto
  then have "x \<in> set (rows grp)" by (simp add: r)
  then show "rows grp \<noteq> []" by auto
  have "sorted (map (\<lambda>r. (time r, lam r)) (rows ?D))" by (simp add: sort_index_def)
  then show "sorted (map (\<lambda>r. (time r, lam r)) (rows grp))"
    unfolding r by (rule sorted_filter)
  show "sorted (map time (rows grp))"
    unfolding r using sorted_time_sort_index by (rule sorted_filter)
qed

lemma group_slicing:
  assumes "(name, grp) \<in> set (groupby (sort_index data))"
  shows "slicing grp lower upper step force = slicing_group lower upper step force grp"
  using group_rows(1-3) [OF assms] by (rule slicing_single_group)

lemma group_keys_distinct: "distinct (map fst (groupby data))"
  using groupby_keys_sorted [of data] by (simp add: strict_sorted_iff)

lemma filter_concat_groups:
  assumes "distinct (map fst gs)"
    and "\<forall>(name, grp) \<in> set gs. \<forall>r \<in> set (R grp). lam r = name"
  shows "(name, grp) \<in> set gs \<Longrightarrow>
           filter (\<lambda>r. lam r = name) (concat (map (\<lambda>(name, grp). R grp) gs)) = R grp"
    and "name \<notin> fst ` set gs \<Longrightarrow>
           filter (\<lambda>r. lam r = name) (concat (map (\<lambda>(name, grp). R grp) gs)) = []"
proof -
  have other: "filter (\<lambda>r. lam r = name) (concat (map (\<lambda>(name, grp). R grp) gs)) = []"
    if "name \<notin> fst ` set gs" and "\<forall>(name, grp) \<in> set gs. \<forall>r \<in> set (R grp). lam r = name"
    for gs name
    using that
  proof (induction gs)
    case Nil
    then show ?case by simp
  next
    case (Cons ng gs)
    obtain n g where ng: "ng = (n, g)" by (cases ng)
    have "filter (\<lambda>r. lam r = name) (R g) = []"
      using Cons.prems by (auto simp: ng filter_empty_conv)
    then show ?case using Cons by (simp add: ng)
  qed
  show "name \<notin> fst ` set gs \<Longrightarrow>
           filter (\<lambda>r. lam r = name) (concat (map (\<lambda>(name, grp). R grp) gs)) = []"
    using other assms(2) by blast
  show "(name, grp) \<in> set gs \<Longrightarrow>
           filter (\<lambda>r. lam r = name) (concat (map (\<lambda>(name, grp). R grp) gs)) = R grp"
    using assms
  proof (induction gs)
    case Nil
    then show ?case by simp
  next
    case (Cons ng gs)
    obtain n g where ng: "ng = (n, g)" by (cases ng)
    show ?case
    proof (cases "(name, grp) = (n, g)")
      case True
      have "filter (\<lambda>r. lam r = name) (R g) = R g"
        using Cons.prems(3) True by (auto simp: ng filter_id_conv)
      moreover have "name \<notin> fst ` set gs" using Cons.prems(2) True by (auto simp: ng)
      then have "filter (\<lambda>r. lam r = name) (concat (map (\<lambda>(name, grp). R grp) gs)) = []"
        using other Cons.prems(3) by auto
      ultimately show ?thesis using True by (simp add: ng)
    next
      case False
      then have mem: "(name, grp) \<in> set gs" using Cons.prems(1) by (auto simp: ng)
      then have "name \<noteq> n" using Cons.prems(2) by (force simp: ng)
      then have "filter (\<lambda>r. lam r = name) (R g) = []"
        using Cons.prems(3) by (auto simp: ng filter_empty_conv)
      moreover have "filter (\<lambda>r. lam r = name) (concat (map (\<lambda>(name, grp). R grp) gs)) = R grp"
        using Cons.IH mem Cons.prems(2,3) by (simp add: ng)
      ultimately show ?thesis by (simp add: ng)
    qed
  qed
qed

subsection \<open>Unique times and the key-major order\<close>

lemma unique_group_times_imp_distinct:
  assumes "\<forall>name \<in> lam ` set xs. distinct (map time (filter (\<lambda>r. lam r = name) xs))"
  shows "distinct (map (\<lambda>r. (lam r, time r)) xs)"
  using assms
proof (induction xs)
  case Nil
  then show ?case by simp
next
  case (Cons x xs)
  have "\<forall>name \<in> lam ` set xs. distinct (map time (filter (\<lambda>r. lam r = name) xs))"
  proof
    fix name assume "name \<in> lam ` set xs"
    then have "name \<in> lam ` set (x # xs)" by auto
    then have "distinct (map time (filter (\<lambda>r. lam r = name) (x # xs)))"
      using Cons.prems by blast
    then show "distinct (map time (filter (\<lambda>r. lam r = name) xs))"
      by (simp split: if_splits)
  qed
  then have IH: "distinct (map (\<lambda>r. (lam r, time r)) xs)" by (rule Cons.IH)
  have "lam x \<in> lam ` set (x # xs)" by simp
  then have "distinct (map time (filter (\<lambda>r. lam r = lam x) (x # xs)))"
    using Cons.prems by blast
  then have notin: "time x \<notin> time ` set (filter (\<lambda>r. lam r = lam x) xs)" by simp
  have "(lam x, time x) \<notin> (\<lambda>r. (lam r, time r)) ` set xs"
  proof
    assume "(lam x, time x) \<in> (\<lambda>r. (lam r, time r)) ` set xs"
    then obtain r where r: "r \<in> set xs" "lam r = lam x" "time r = time x" by auto
    then have "r \<in> set (filter (\<lambda>r. lam r = lam x) xs)" by simp
    then have "time r \<in> time ` set (filter (\<lambda>r. lam r = lam x) xs)" by (rule imageI)
    then show False using notin r(3) by simp
  qed
  then show ?case using IH by simp
qed


lemma distinct_imp_unique_times:
  assumes "distinct (map (\<lambda>r. (lam r, time r)) xs)"
  shows "distinct (map time (filter (\<lambda>r. lam r = name) xs))"
proof -
  have "distinct (map (\<lambda>r. (lam r, time r)) (filter (\<lambda>r. lam r = name) xs))"
    using assms by (rule distinct_map_filter)
  moreover have "map (\<lambda>r. (lam r, time r)) (filter (\<lambda>r. lam r = name) xs)
               = map (Pair name) (map time (filter (\<lambda>r. lam r = name) xs))"
    by (induction xs) auto
  ultimately have "distinct (map (Pair name) (map time (filter (\<lambda>r. lam r = name) xs)))"
    by (simp only:)
  then show ?thesis by (rule distinct_map [THEN iffD1, THEN conjunct1])
qed

lemma unique_group_times_iff:
  "unique_group_times data \<longleftrightarrow> distinct (map (\<lambda>r. (lam r, time r)) (rows data))"
proof
  assume "unique_group_times data"
  then show "distinct (map (\<lambda>r. (lam r, time r)) (rows data))"
    unfolding unique_group_times_def by (rule unique_group_times_imp_distinct)
next
  assume "distinct (map (\<lambda>r. (lam r, time r)) (rows data))"
  then show "unique_group_times data"
    unfolding unique_group_times_def by (intro ballI distinct_imp_unique_times)
qed

lemma distinct_map_sort_key: "distinct (map f (sort_key g xs)) \<longleftrightarrow> distinct (map f xs)"
proof -
  have "mset (map f (sort_key g xs)) = mset (map f xs)" by simp
  then show ?thesis by (rule mset_eq_imp_distinct_iff)
qed

lemma unique_group_times_sort_index:
  "unique_group_times (sort_index data) \<longleftrightarrow> unique_group_times data"
  by (simp add: unique_group_times_iff sort_index_def distinct_map_sort_key)

lemma group_times_distinct:
  assumes "unique_group_times data" and "(name, grp) \<in> set (groupby (sort_index data))"
  shows "distinct (map time (rows grp))"
proof -
  have "unique_group_times (sort_index data)"
    using assms(1) by (simp only: unique_group_times_sort_index)
  then have "distinct (map (\<lambda>r. (lam r, time r)) (rows (sort_index data)))"
    by (simp only: unique_group_times_iff)
  then show ?thesis unfolding group_rows(5) [OF assms(2)] by (rule distinct_imp_unique_times)
qed

lemma sorted_concat_groups:
  fixes gs :: "('k::linorder \<times> 'g) list" and f :: "'k row \<Rightarrow> 'b::linorder"
  assumes "sorted_wrt (<) (map fst gs)"
    and "\<forall>(name, grp) \<in> set gs. (\<forall>r \<in> set (R grp). lam r = name)
            \<and> sorted_wrt (<) (map f (R grp))"
  shows "sorted_wrt (<) (map (\<lambda>r. (lam r, f r)) (concat (map (\<lambda>(name, grp). R grp) gs)))"
  using assms
proof (induction gs)
  case Nil
  then show ?case by simp
next
  case (Cons ng gs)
  obtain n g where ng: "ng = (n, g)" by (cases ng)
  let ?key = "\<lambda>r. (lam r, f r)"
  let ?rest = "concat (map (\<lambda>(name, grp). R grp) gs)"
  have lam_g: "\<forall>r \<in> set (R g). lam r = n" and f_g: "sorted_wrt (<) (map f (R g))"
    using Cons.prems(2) by (simp_all add: ng)
  have "sorted_wrt (\<lambda>a b. f a < f b) (R g)"
    using f_g by (simp add: sorted_wrt_map)
  then have "sorted_wrt (\<lambda>a b. ?key a < ?key b) (R g)"
  proof (rule sorted_wrt_mono_rel [rotated])
    fix a b assume "a \<in> set (R g)" "b \<in> set (R g)" "f a < f b"
    then show "?key a < ?key b" using lam_g by simp
  qed
  then have here: "sorted_wrt (<) (map ?key (R g))"
    by (simp add: sorted_wrt_map)
  have prems_gs: "sorted_wrt (<) (map fst gs)"
    "\<forall>(name, grp) \<in> set gs. (\<forall>r \<in> set (R grp). lam r = name) \<and> sorted_wrt (<) (map f (R grp))"
    using Cons.prems by (simp_all add: ng)
  have rest: "sorted_wrt (<) (map ?key ?rest)"
    using prems_gs by (rule Cons.IH)
  have above: "\<forall>n' \<in> set (map fst gs). n < n'"
    using Cons.prems(1) by (simp add: ng)
  have cross: "\<forall>x \<in> set (map ?key (R g)). \<forall>y \<in> set (map ?key ?rest). x < y"
  proof (intro ballI)
    fix x y assume x: "x \<in> set (map ?key (R g))" and y: "y \<in> set (map ?key ?rest)"
    obtain a where a: "a \<in> set (R g)" "x = ?key a" using x by auto
    obtain b where b: "b \<in> set ?rest" "y = ?key b" using y by auto
    obtain ng' where ng': "ng' \<in> set gs" "b \<in> set ((\<lambda>(name, grp). R grp) ng')"
      using b(1) by auto
    obtain n' g' where p: "ng' = (n', g')" by (cases ng')
    have "n' \<in> set (map fst gs)" using ng'(1) p by force
    then have "n < n'" using above by blast
    moreover have "lam b = n'" using prems_gs(2) ng' p by auto
    moreover have "lam a = n" using lam_g a(1) by simp
    ultimately show "x < y" using a(2) b(2) by simp
  qed
  have "map ?key (concat (map (\<lambda>(name, grp). R grp) (ng # gs))) = map ?key (R g) @ map ?key ?rest"
    by (simp add: ng)
  then show ?case
    using here rest cross by (simp only: sorted_wrt_append)
qed

lemma mset_concat_filter:
  assumes "distinct ks"
  shows "mset (concat (map (\<lambda>k. filter (\<lambda>r. f r = k) xs) ks))
       = filter_mset (\<lambda>r. f r \<in> set ks) (mset xs)"
  using assms
proof (induction ks)
  case Nil
  then show ?case by simp
next
  case (Cons k ks)
  have k: "k \<notin> set ks" and d: "distinct ks" using Cons.prems by simp_all
  have "filter_mset (\<lambda>r. f r = k) (mset xs) + filter_mset (\<lambda>r. f r \<in> set ks) (mset xs)
      = filter_mset (\<lambda>r. f r \<in> set (k # ks)) (mset xs)"
  proof (rule multiset_eqI)
    fix a
    show "count (filter_mset (\<lambda>r. f r = k) (mset xs) + filter_mset (\<lambda>r. f r \<in> set ks) (mset xs)) a
        = count (filter_mset (\<lambda>r. f r \<in> set (k # ks)) (mset xs)) a"
      using k by (cases "f a = k") simp_all
  qed
  then show ?case using Cons.IH [OF d] by simp
qed

lemma mset_concat_groups:
  "mset (concat (map (\<lambda>(name, grp). rows grp) (groupby data))) = mset (rows data)"
proof -
  let ?ks = "sort (remdups (map lam (rows data)))"
  have "map (\<lambda>(name, grp). rows grp) (groupby data)
      = map (\<lambda>k. filter (\<lambda>r. lam r = k) (rows data)) ?ks"
    by (simp add: groupby_def)
  then have "mset (concat (map (\<lambda>(name, grp). rows grp) (groupby data)))
      = mset (concat (map (\<lambda>k. filter (\<lambda>r. lam r = k) (rows data)) ?ks))"
    by (simp only:)
  also have "\<dots> = filter_mset (\<lambda>r. lam r \<in> set ?ks) (mset (rows data))"
    by (rule mset_concat_filter) simp
  also have "\<dots> = mset (rows data)"
  proof -
    have "\<forall>r \<in># mset (rows data). lam r \<in> set ?ks" by simp
    then show ?thesis by (simp only: filter_mset_eq_conv) simp
  qed
  finally show ?thesis .
qed

lemma set_concat_groups:
  "set (concat (map (\<lambda>(name, grp). rows grp) (groupby data))) = set (rows data)"
  using mset_concat_groups [of data] by (rule mset_eq_setD)

lemma loc_rows_no_bounds: "loc_rows None None None rs = rs"
  by (simp add: loc_rows_def in_bounds_def)

section \<open>Running the module\<close>

lemmas run_defs =
  slicing_def sort_index_def groupby_def loc_def in_bounds_def every_nth_def
  slicing_body_def check_multiple_times_def pd_concat_def mk_row_def mk_frame_def
  statistical_inefficiency_def statistical_inefficiency_body_def getitem_def iloc_def
  iloc_from_def equilibrium_detection_def equilibrium_detection_body_def reporting_def
  reporting_nonempty_def subsample_indices_def uniform_indices_def fractional_indices_def
  py_round_def setitem_def

text \<open>
  Claim C1 (the code departs from it). The spec wants the per-group loop of
  \<^verbatim>\<open>statistical_inefficiency\<close> to run and to produce a subsampled table whether or
  not \<^verbatim>\<open>column\<close> is given, the observable being resolved through \<^verbatim>\<open>how\<close>
  when it is not. In the code \<^verbatim>\<open>how\<close> is never read: without \<^verbatim>\<open>column\<close>
  the call on a well-formed one-group table ends in an error and produces no table.
\<close>

theorem statistical_inefficiency_without_column_fails:
  "isl (statistical_inefficiency (reporting 0 1 1)
          (mk_frame [mk_row 0 (0::nat) 5, mk_row 1 0 6, mk_row 2 0 7])
          Sum None None None None True False False)"
  by (simp add: run_defs)

text \<open>
  Claim C2 (the code departs from it). A duplicate-timestamps error should be raised
  exactly when a group has duplicate times after slicing and \<^verbatim>\<open>force\<close> is false.
  In \<^verbatim>\<open>statistical_inefficiency\<close> and \<^verbatim>\<open>equilibrium_detection\<close> the
  pre-slicing runs \<^verbatim>\<open>slicing\<close> with its default \<^verbatim>\<open>force=False\<close>, so the error
  is raised with \<^verbatim>\<open>force=True\<close> too; and with \<^verbatim>\<open>force=False\<close> the second check
  looks at the group before slicing, so duplicates outside the bounds raise it as well.
\<close>

theorem duplicate_times_raised_despite_force:
  "statistical_inefficiency (reporting 0 1 1)
     (mk_frame [mk_row 0 (0::nat) 5, mk_row 0 0 6, mk_row 1 0 7])
     Auto (Some ''fep'') None None None True False True = Inl KeyError_duplicate_times
   \<and> equilibrium_detection (reporting 0 1 1)
     (mk_frame [mk_row 0 (0::nat) 5, mk_row 0 0 6, mk_row 1 0 7])
     Auto (Some ''fep'') None None None True False True = Inl KeyError_duplicate_times
   \<and> slicing (mk_frame [mk_row 0 (0::nat) 5, mk_row 0 0 6, mk_row 1 0 7])
     (Some 1) None None False = Inr (mk_frame [mk_row 1 0 7])
   \<and> statistical_inefficiency (reporting 0 1 1)
     (mk_frame [mk_row 0 (0::nat) 5, mk_row 0 0 6, mk_row 1 0 7])
     Auto (Some ''fep'') (Some 1) None None True False False = Inl KeyError_duplicate_times"
  by (simp add: run_defs)

text \<open>
  Claim C4 (the code departs from it). With \<^verbatim>\<open>how='sum'\<close> and no \<^verbatim>\<open>column\<close>
  the correlation analysis should run on the row-wise sum of the columns. The code looks
  up \<^verbatim>\<open>group_s[column]\<close> with \<^verbatim>\<open>column=None\<close>, which raises: no series is
  analysed.
\<close>

theorem equilibrium_detection_sum_without_column_fails:
  "equilibrium_detection (reporting 0 1 1)
     (mk_frame [mk_row 0 (0::nat) 5, mk_row 1 0 6, mk_row 2 0 7])
     Sum None None None None True False False = Inl (KeyError_label None)"
  by (simp add: run_defs)

text \<open>
  Claim C5 (the code departs from it). The diagnostics of
  \<^verbatim>\<open>equilibrium_detection\<close> should hold the cutoff \<open>t\<close>, the inefficiency
  \<open>g\<close> and the effective sample size, each from its own output of the collaborator. The
  code stores \<^verbatim>\<open>statinef\<close> under all three keys: on a constant series, for which the
  collaborator answers \<open>(0, 1, 1)\<close>, the entry \<^verbatim>\<open>'t'\<close> is 1 and not the cutoff 0; and
  for a collaborator answering \<open>(1, 2, 3/2)\<close> all three entries are 2.
\<close>

theorem equilibrium_detection_calculated_repeats_statinef:
  "equilibrium_detection (reporting 0 1 1)
     (mk_frame [mk_row 0 (0::nat) 5, mk_row 1 0 5])
     Auto (Some ''fep'') None None None True True False
   = Inr (mk_frame [mk_row 0 0 5, mk_row 1 0 5],
          Some [''t'' \<mapsto> [0 \<mapsto> 1], ''statinef'' \<mapsto> [0 \<mapsto> 1], ''Neff_max'' \<mapsto> [0 \<mapsto> 1]])
   \<and> equilibrium_detection (reporting 1 2 (3 / 2))
     (mk_frame [mk_row 0 (0::nat) 5, mk_row 1 0 6, mk_row 2 0 7])
     Auto (Some ''fep'') None None None True True False
   = Inr (mk_frame [mk_row 1 0 6],
          Some [''t'' \<mapsto> [0 \<mapsto> 2], ''statinef'' \<mapsto> [0 \<mapsto> 2], ''Neff_max'' \<mapsto> [0 \<mapsto> 2]])"
  by (simp add: run_defs)

section \<open>Slicing without bounds\<close>

lemma slicing_no_bounds:
  assumes "unique_group_times data" and "rows data \<noteq> []"
  shows "slicing data None None None False =
           Inr ((sort_index data)\<lparr>rows := concat (map (\<lambda>(name, grp). rows grp)
                                                   (groupby (sort_index data)))\<rparr>)"
proof -
  let ?gs = "groupby (sort_index data)"
  have ok: "\<forall>(name, grp) \<in> set ?gs. \<exists>y. slicing_group None None None False grp = Inr y"
  proof (intro ballI, clarify)
    fix name grp assume "(name, grp) \<in> set ?gs"
    then have "distinct (map time (rows grp))" using assms(1) by (rule group_times_distinct [rotated])
    then show "\<exists>y. slicing_group None None None False grp = Inr y"
      by (simp add: slicing_group_eq loc_rows_no_bounds)
  qed
  have "map (\<lambda>(name, grp). loc_rows None None None (rows grp)) ?gs
      = map (\<lambda>(name, grp). rows grp) ?gs"
    by (simp add: loc_rows_no_bounds)
  then show ?thesis
    using ok assms(2) by (simp only: slicing_Inr_iff) simp
qed

lemma key_major_groups:
  assumes "unique_group_times data"
  shows "sorted_wrt (<) (map (\<lambda>r. (lam r, time r))
           (concat (map (\<lambda>(name, grp). rows grp) (groupby (sort_index data)))))"
proof (rule sorted_concat_groups)
  show "sorted_wrt (<) (map fst (groupby (sort_index data)))" by (rule groupby_keys_sorted)
  show "\<forall>(name, grp) \<in> set (groupby (sort_index data)).
          (\<forall>r \<in> set (rows grp). lam r = name) \<and> sorted_wrt (<) (map time (rows grp))"
  proof (intro ballI, clarify)
    fix name grp assume g: "(name, grp) \<in> set (groupby (sort_index data))"
    have "distinct (map time (rows grp))" using assms g by (rule group_times_distinct)
    then show "(\<forall>r \<in> set (rows grp). lam r = name) \<and> sorted_wrt (<) (map time (rows grp))"
      using group_rows(2,4) [OF g] by (simp add: strict_sorted_iff)
  qed
qed

lemma mset_groups_sort_index:
  "mset (concat (map (\<lambda>(name, grp). rows grp) (groupby (sort_index data)))) = mset (rows data)"
  by (simp add: mset_concat_groups sort_index_def)

lemma groups_eq_sort_key:
  assumes "unique_group_times data"
  shows "concat (map (\<lambda>(name, grp). rows grp) (groupby (sort_index data)))
       = sort_key (\<lambda>r. (lam r, time r)) (rows data)"
proof (rule map_sorted_distinct_set_unique [where f = "\<lambda>r. (lam r, time r)"])
  let ?key = "\<lambda>r. (lam r, time r)"
  let ?out = "concat (map (\<lambda>(name, grp). rows grp) (groupby (sort_index data)))"
  have d: "distinct (map ?key (rows data))"
    using assms by (simp only: unique_group_times_iff)
  have set_out: "set ?out = set (rows data)"
    using mset_groups_sort_index [of data] by (rule mset_eq_setD)
  show "set ?out = set (sort_key ?key (rows data))" using set_out by simp
  show "inj_on ?key (set ?out \<union> set (sort_key ?key (rows data)))"
    using d set_out by (simp add: distinct_map)
  have strict: "sorted_wrt (<) (map ?key ?out)" using assms by (rule key_major_groups)
  show "sorted (map ?key ?out)" using strict by (simp add: strict_sorted_iff)
  show "distinct (map ?key ?out)" using strict by (simp add: strict_sorted_iff)
  show "sorted (map ?key (sort_key ?key (rows data)))" by simp
  show "distinct (map ?key (sort_key ?key (rows data)))"
    using d by (simp only: distinct_map_sort_key)
qed

lemma single_group_sort_key:
  assumes "unique_group_times data" and "\<forall>r \<in> set (rows data). lam r = k"
  shows "sort_key (\<lambda>r. (lam r, time r)) (rows data) = rows (sort_index data)"
proof (rule map_sorted_distinct_set_unique [where f = "\<lambda>r. (lam r, time r)"])
  let ?key = "\<lambda>r. (lam r, time r)"
  have d: "distinct (map ?key (rows data))"
    using assms(1) by (simp only: unique_group_times_iff)
  show "set (sort_key ?key (rows data)) = set (rows (sort_index data))"
    by (simp add: sort_index_def)
  show "inj_on ?key (set (sort_key ?key (rows data)) \<union> set (rows (sort_index data)))"
    using d by (simp add: distinct_map sort_index_def)
  show "sorted (map ?key (sort_key ?key (rows data)))" by simp
  show "distinct (map ?key (sort_key ?key (rows data)))"
    using d by (simp only: distinct_map_sort_key)
  show "distinct (map ?key (rows (sort_index data)))"
    using d by (simp add: sort_index_def distinct_map_sort_key)
  have "sorted_wrt (\<lambda>a b. time a \<le> time b) (rows (sort_index data))"
    using sorted_time_sort_index [of data] by (simp add: sorted_wrt_map)
  then have "sorted_wrt (\<lambda>a b. ?key a \<le> ?key b) (rows (sort_index data))"
  proof (rule sorted_wrt_mono_rel [rotated])
    fix a b assume "a \<in> set (rows (sort_index data))" "b \<in> set (rows (sort_index data))"
      and t: "time a \<le> time b"
    then have "lam a = k" "lam b = k" using assms(2) by (simp_all add: sort_index_def)
    then show "?key a \<le> ?key b" using t by simp
  qed
  then show "sorted (map ?key (rows (sort_index data)))" by (simp add: sorted_wrt_map)
qed







text \<open>
  Claim C6, as the code has it. The spec says that \<^verbatim>\<open>slicing\<close> without bounds
  returns the sorted input. The code concatenates the groups, so on a non-empty table with
  unique times in each group the result is the input sorted by lambda-state key first and
  by time second; it is the input sorted by its index (time first) when all rows share one
  lambda state.
\<close>

theorem slicing_no_bounds_sorts_by_group_then_time:
  assumes "unique_group_times data" and "rows data \<noteq> []"
  shows "slicing data None None None False
           = Inr (data\<lparr>rows := sort_key (\<lambda>r. (lam r, time r)) (rows data)\<rparr>)
         \<and> ((\<forall>r \<in> set (rows data). lam r = k) \<longrightarrow>
              slicing data None None None False = Inr (sort_index data))"
proof -
  have eq: "slicing data None None None False
           = Inr (data\<lparr>rows := sort_key (\<lambda>r. (lam r, time r)) (rows data)\<rparr>)"
    using slicing_no_bounds [OF assms] groups_eq_sort_key [OF assms(1)]
    by (simp add: sort_index_def)
  moreover have "slicing data None None None False = Inr (sort_index data)"
    if "\<forall>r \<in> set (rows data). lam r = k"
  proof -
    have "sort_key (\<lambda>r. (lam r, time r)) (rows data) = rows (sort_index data)"
      using assms(1) that by (rule single_group_sort_key)
    then show ?thesis using eq by (simp add: sort_index_def)
  qed
  ultimately show ?thesis by blast
qed

theorem slicing_no_bounds_sorts_by_group_then_time_witness:
  "unique_group_times (mk_frame [mk_row 1 (0::nat) 5, mk_row 0 0 6])
   \<and> rows (mk_frame [mk_row 1 (0::nat) 5, mk_row 0 0 6]) \<noteq> []
   \<and> lam ` set (rows (mk_frame [mk_row 1 (0::nat) 5, mk_row 0 0 6])) \<subseteq> {0}
   \<and> slicing (mk_frame [mk_row 1 (0::nat) 5, mk_row 0 0 6]) None None None False
       = Inr (mk_frame [mk_row 0 0 6, mk_row 1 0 5])
   \<and> sort_index (mk_frame [mk_row 1 (0::nat) 5, mk_row 0 0 6]) = mk_frame [mk_row 0 0 6, mk_row 1 0 5]"
proof -
  have u: "unique_group_times (mk_frame [mk_row 1 (0::nat) 5, mk_row 0 0 6])"
    by (simp add: unique_group_times_def mk_frame_def mk_row_def)
  have n: "rows (mk_frame [mk_row 1 (0::nat) 5, mk_row 0 0 6]) \<noteq> []"
    by (simp add: mk_frame_def)
  have k: "\<forall>r \<in> set (rows (mk_frame [mk_row 1 (0::nat) 5, mk_row 0 0 6])). lam r = 0"
    by (simp add: mk_frame_def mk_row_def)
  have s: "sort_index (mk_frame [mk_row 1 (0::nat) 5, mk_row 0 0 6]) = mk_frame [mk_row 0 0 6, mk_row 1 0 5]"
    by (simp add: sort_index_def mk_frame_def mk_row_def)
  have b: "slicing (mk_frame [mk_row 1 (0::nat) 5, mk_row 0 0 6]) None None None False
       = Inr (sort_index (mk_frame [mk_row 1 (0::nat) 5, mk_row 0 0 6]))"
    using slicing_no_bounds_sorts_by_group_then_time [OF u n, of 0] k by blast
  have k': "lam ` set (rows (mk_frame [mk_row 1 (0::nat) 5, mk_row 0 0 6])) \<subseteq> {0}"
    using k by (simp only: image_subset_iff) simp
  have b': "slicing (mk_frame [mk_row 1 (0::nat) 5, mk_row 0 0 6]) None None None False
       = Inr (mk_frame [mk_row 0 0 6, mk_row 1 0 5])"
    using b by (simp only: s)
  show ?thesis using u n k' b' s by blast
qed

theorem slicing_no_bounds_is_not_sorted_input:
  "unique_group_times (mk_frame [mk_row 0 (1::nat) 5, mk_row 1 0 6])
   \<and> slicing (mk_frame [mk_row 0 (1::nat) 5, mk_row 1 0 6]) None None None False
       \<noteq> Inr (sort_index (mk_frame [mk_row 0 (1::nat) 5, mk_row 1 0 6]))
   \<and> unique_group_times (mk_frame ([] :: nat row list))
   \<and> slicing (mk_frame ([] :: nat row list)) None None None False = Inl ValueError_no_objects"
  by (simp add: run_defs unique_group_times_def)

section \<open>The two subsampling functions, group by group\<close>

lemma fold_pair:
  "fold (\<lambda>(name, grp) st. (fst st @ [F grp], G name grp (snd st))) gs (a, c)
     = (a @ map (\<lambda>(name, grp). F grp) gs, fold (\<lambda>(name, grp). G name grp) gs c)"
  by (induction gs arbitrary: a c) (simp_all add: case_prod_beta)

lemma pd_concat_Inr:
  assumes "pd_concat resdata = Inr out"
  shows "resdata \<noteq> []" and "rows out = concat (map rows resdata)"
  using assms by (cases resdata; simp add: pd_concat_def; fastforce)+

lemma entry_setitem:
  "entry (setitem c key name v) key' name' =
     (if key' = key \<and> name' = name then Some v else entry c key' name')"
  by (simp add: entry_def setitem_def split: option.splits)

lemma entry_fold_other:
  assumes U: "\<And>name grp c name'. entry (U name grp c) key name' =
                 (if name' = name then Some (V grp) else entry c key name')"
    and "name \<notin> fst ` set gs"
  shows "entry (fold (\<lambda>(name, grp). U name grp) gs c0) key name = entry c0 key name"
  using assms(2)
proof (induction gs arbitrary: c0)
  case Nil
  then show ?case by simp
next
  case (Cons ng gs)
  obtain n g where ng: "ng = (n, g)" by (cases ng)
  have "name \<noteq> n" and "name \<notin> fst ` set gs" using Cons.prems by (simp_all add: ng)
  then show ?case using Cons.IH [of "U n g c0"] by (simp add: ng U)
qed

lemma entry_fold:
  assumes U: "\<And>name grp c name'. entry (U name grp c) key name' =
                 (if name' = name then Some (V grp) else entry c key name')"
    and "distinct (map fst gs)" and "(name, grp) \<in> set gs"
  shows "entry (fold (\<lambda>(name, grp). U name grp) gs c0) key name = Some (V grp)"
  using assms(2,3)
proof (induction gs arbitrary: c0)
  case Nil
  then show ?case by simp
next
  case (Cons ng gs)
  obtain n g where ng: "ng = (n, g)" by (cases ng)
  show ?case
  proof (cases "(name, grp) = (n, g)")
    case True
    then have "name \<notin> fst ` set gs" using Cons.prems(1) by (simp add: ng)
    then have "entry (fold (\<lambda>(name, grp). U name grp) gs (U n g c0)) key name
             = entry (U n g c0) key name"
      by (rule entry_fold_other [OF U])
    then show ?thesis using True by (simp add: ng U)
  next
    case False
    then have "(name, grp) \<in> set gs" using Cons.prems(2) by (auto simp: ng)
    moreover have "distinct (map fst gs)" using Cons.prems(1) by simp
    ultimately show ?thesis using Cons.IH [of "U n g c0"] by (simp add: ng)
  qed
qed

lemma statistical_inefficiency_body_eq:
  "statistical_inefficiency_body ts column lower upper step conservative rc force name grp st =
     (case statistical_inefficiency_group ts column lower upper step conservative force grp of
        Inl e \<Rightarrow> Inl e
      | Inr y \<Rightarrow> Inr ((\<lambda>name y st. (fst st @ [fst y],
                        if rc then setitem (snd st) ''statinef'' name (snd y) else snd st))
                      name y st))"
  by (simp add: statistical_inefficiency_body_def statistical_inefficiency_group_def
           split: sum.splits)

lemma equilibrium_detection_body_eq:
  "equilibrium_detection_body ts column lower upper step conservative rc force name grp st =
     (case equilibrium_detection_group ts column lower upper step conservative force grp of
        Inl e \<Rightarrow> Inl e
      | Inr y \<Rightarrow> Inr ((\<lambda>name y st. (fst st @ [fst y],
                        if rc then setitem (setitem (setitem (snd st)
                                     ''t'' name (snd y)) ''statinef'' name (snd y))
                                     ''Neff_max'' name (snd y)
                        else snd st))
                      name y st))"
  by (simp add: equilibrium_detection_body_def equilibrium_detection_group_def Let_def
           split: sum.splits prod.splits)


lemma for_groups_collecting:
  assumes body: "\<And>name grp st. body name grp st =
      (case f grp of Inl e \<Rightarrow> Inl e
       | Inr y \<Rightarrow> Inr (fst st @ [fst y], G name (snd y) (snd st)))"
  shows "for_groups body gs (a, c0) = Inr (resdata, calc) \<longleftrightarrow>
     (\<forall>(name, grp) \<in> set gs. \<exists>y. f grp = Inr y) \<and>
     resdata = a @ map (\<lambda>(name, grp). fst (projr (f grp))) gs \<and>
     calc = fold (\<lambda>(name, grp). G name (snd (projr (f grp)))) gs c0"
proof (induction gs arbitrary: a c0)
  case Nil
  show ?case by auto
next
  case (Cons ng gs)
  obtain name grp where ng: "ng = (name, grp)" by (cases ng)
  show ?case
  proof (cases "f grp")
    case (Inl e)
    then show ?thesis by (simp add: ng body)
  next
    case (Inr y)
    have "for_groups body (ng # gs) (a, c0)
        = for_groups body gs (a @ [fst y], G name (snd y) c0)"
      using Inr by (simp add: ng body)
    then show ?thesis
      using Cons.IH [of "a @ [fst y]" "G name (snd y) c0"] Inr by (simp add: ng)
  qed
qed

lemma statistical_inefficiency_Inr:
  assumes "statistical_inefficiency ts data how column lower upper step conservative rc force
             = Inr (out, calc)"
  shows "\<forall>(name, grp) \<in> set (groupby (sort_index data)).
           \<exists>y. statistical_inefficiency_group ts column lower upper step conservative force grp = Inr y"
    and "rows out = concat (map (\<lambda>(name, grp). rows (fst (projr
            (statistical_inefficiency_group ts column lower upper step conservative force grp))))
          (groupby (sort_index data)))"
    and "calc = (if rc then Some (fold (\<lambda>(name, grp) c. setitem c ''statinef'' name (snd (projr
            (statistical_inefficiency_group ts column lower upper step conservative force grp))))
          (groupby (sort_index data)) Map.empty) else None)"
    and "rows data \<noteq> []"
proof -
  let ?gs = "groupby (sort_index data)"
  let ?f = "statistical_inefficiency_group ts column lower upper step conservative force"
  let ?body = "statistical_inefficiency_body ts column lower upper step conservative rc force"
  let ?G = "\<lambda>name v c. if rc then setitem c ''statinef'' name v else c"
  have body: "\<And>name grp st. ?body name grp st =
      (case ?f grp of Inl e \<Rightarrow> Inl e
       | Inr y \<Rightarrow> Inr (fst st @ [fst y], ?G name (snd y) (snd st)))"
    by (simp add: statistical_inefficiency_body_eq)
  obtain st where run: "for_groups ?body ?gs ([], Map.empty) = Inr st"
    using assms unfolding statistical_inefficiency_def
    by (cases "for_groups ?body ?gs ([], Map.empty)") simp_all
  obtain resdata calculated where st: "st = (resdata, calculated)" by (cases st)
  obtain out' where cat': "pd_concat resdata = Inr out'"
    using assms unfolding statistical_inefficiency_def
    by (cases "pd_concat resdata") (simp_all add: run st)
  have cat: "pd_concat resdata = Inr out"
    and calc: "calc = (if rc then Some calculated else None)"
    using assms unfolding statistical_inefficiency_def by (simp_all add: run st cat')
  note loop = for_groups_collecting [where body = ?body and f = ?f and G = ?G and gs = ?gs
      and a = "[]" and ?c0.0 = Map.empty and resdata = resdata and calc = calculated,
      OF body, THEN iffD1, OF run [unfolded st]]
  show "\<forall>(name, grp) \<in> set ?gs. \<exists>y. ?f grp = Inr y" using loop by blast
  have rd: "resdata = map (\<lambda>(name, grp). fst (projr (?f grp))) ?gs" using loop by blast
  have "map rows resdata = map (\<lambda>(name, grp). rows (fst (projr (?f grp)))) ?gs"
    unfolding rd by (simp add: case_prod_beta)
  then show "rows out = concat (map (\<lambda>(name, grp). rows (fst (projr (?f grp)))) ?gs)"
    using pd_concat_Inr(2) [OF cat] by simp
  have "?gs \<noteq> []" using pd_concat_Inr(1) [OF cat] rd by auto
  then show "rows data \<noteq> []" by (simp add: groupby_eq_Nil rows_sort_index_Nil)
  have "calculated = fold (\<lambda>(name, grp). ?G name (snd (projr (?f grp)))) ?gs Map.empty"
    using loop by blast
  then show "calc = (if rc then Some (fold (\<lambda>(name, grp) c. setitem c ''statinef'' name
                (snd (projr (?f grp)))) ?gs Map.empty) else None)"
    using calc by (cases rc) simp_all
qed


lemma equilibrium_detection_Inr:
  assumes "equilibrium_detection ts data how column lower upper step conservative rc force
             = Inr (out, calc)"
  shows "\<forall>(name, grp) \<in> set (groupby (sort_index data)).
           \<exists>y. equilibrium_detection_group ts column lower upper step conservative force grp = Inr y"
    and "rows out = concat (map (\<lambda>(name, grp). rows (fst (projr
            (equilibrium_detection_group ts column lower upper step conservative force grp))))
          (groupby (sort_index data)))"
    and "calc = (if rc then Some (fold (\<lambda>(name, grp) c.
            setitem (setitem (setitem c
              ''t'' name (snd (projr
                (equilibrium_detection_group ts column lower upper step conservative force grp))))
              ''statinef'' name (snd (projr
                (equilibrium_detection_group ts column lower upper step conservative force grp))))
              ''Neff_max'' name (snd (projr
                (equilibrium_detection_group ts column lower upper step conservative force grp))))
          (groupby (sort_index data)) Map.empty) else None)"
    and "rows data \<noteq> []"
proof -
  let ?gs = "groupby (sort_index data)"
  let ?f = "equilibrium_detection_group ts column lower upper step conservative force"
  let ?body = "equilibrium_detection_body ts column lower upper step conservative rc force"
  let ?G = "\<lambda>name v c. if rc then setitem (setitem (setitem c ''t'' name v) ''statinef'' name v)
                                    ''Neff_max'' name v else c"
  have body: "\<And>name grp st. ?body name grp st =
      (case ?f grp of Inl e \<Rightarrow> Inl e
       | Inr y \<Rightarrow> Inr (fst st @ [fst y], ?G name (snd y) (snd st)))"
    by (simp add: equilibrium_detection_body_eq)
  obtain st where run: "for_groups ?body ?gs ([], Map.empty) = Inr st"
    using assms unfolding equilibrium_detection_def
    by (cases "for_groups ?body ?gs ([], Map.empty)") simp_all
  obtain resdata calculated where st: "st = (resdata, calculated)" by (cases st)
  obtain out' where cat': "pd_concat resdata = Inr out'"
    using assms unfolding equilibrium_detection_def
    by (cases "pd_concat resdata") (simp_all add: run st)
  have cat: "pd_concat resdata = Inr out"
    and calc: "calc = (if rc then Some calculated else None)"
    using assms unfolding equilibrium_detection_def by (simp_all add: run st cat')
  note loop = for_groups_collecting [where body = ?body and f = ?f and G = ?G and gs = ?gs
      and a = "[]" and ?c0.0 = Map.empty and resdata = resdata and calc = calculated,
      OF body, THEN iffD1, OF run [unfolded st]]
  show "\<forall>(name, grp) \<in> set ?gs. \<exists>y. ?f grp = Inr y" using loop by blast
  have rd: "resdata = map (\<lambda>(name, grp). fst (projr (?f grp))) ?gs" using loop by simp
  have "map rows resdata = map (\<lambda>(name, grp). rows (fst (projr (?f grp)))) ?gs"
    unfolding rd by (simp add: case_prod_beta)
  then show "rows out = concat (map (\<lambda>(name, grp). rows (fst (projr (?f grp)))) ?gs)"
    using pd_concat_Inr(2) [OF cat] by simp
  have "?gs \<noteq> []" using pd_concat_Inr(1) [OF cat] rd by auto
  then show "rows data \<noteq> []" by (simp add: groupby_eq_Nil rows_sort_index_Nil)
  have "calculated = fold (\<lambda>(name, grp). ?G name (snd (projr (?f grp)))) ?gs Map.empty"
    using loop by blast
  then show "calc = (if rc then Some (fold (\<lambda>(name, grp) c.
            setitem (setitem (setitem c ''t'' name (snd (projr (?f grp))))
              ''statinef'' name (snd (projr (?f grp))))
              ''Neff_max'' name (snd (projr (?f grp)))) ?gs Map.empty) else None)"
    using calc by (cases rc) simp_all
qed

lemma group_pre_slicing:
  assumes g: "(name, grp) \<in> set (groupby (sort_index data))"
    and r: "slicing grp lower upper step False = Inr group_s"
  shows "group_s = grp\<lparr>rows := loc_rows lower upper step (rows grp)\<rparr>"
    and "distinct (map time (rows group_s))"
    and "forwards step \<Longrightarrow> sorted (map time (rows group_s))"
    and "backwards step \<Longrightarrow> sorted (rev (map time (rows group_s)))"
    and "\<forall>r \<in> set (rows group_s). lam r = name"
    and "step \<noteq> Some 0"
proof -
  have sg: "slicing_group lower upper step False grp = Inr group_s"
    using r by (simp only: group_slicing [OF g])
  then show step: "step \<noteq> Some 0" by (auto simp: slicing_group_eq split: if_splits)
  show gs: "group_s = grp\<lparr>rows := loc_rows lower upper step (rows grp)\<rparr>"
    using sg by (rule slicing_group_Inr)
  show "distinct (map time (rows group_s))"
    using sg step by (simp add: slicing_group_eq split: if_splits) (simp add: gs)
  show "sorted (map time (rows group_s))" if "forwards step"
  proof -
    have "subseq (rows group_s) (rows grp)" using that by (simp add: gs subseq_loc_rows)
    then show ?thesis using group_rows(4) [OF g] by (rule subseq_sorted_map)
  qed
  show "sorted (rev (map time (rows group_s)))" if "backwards step"
  proof -
    have "\<not> forwards step" using that by (rule backwards_not_forwards)
    then have "subseq (rows group_s) (rev (rows grp))" by (simp add: gs subseq_loc_rows_rev)
    moreover have "sorted (rev (map time (rev (rows grp))))"
      using group_rows(4) [OF g] by (simp add: rev_map)
    ultimately show ?thesis by (rule subseq_sorted_rev_map)
  qed
  have "set (rows group_s) \<subseteq> set (rows grp)" by (simp add: gs set_loc_rows)
  then show "\<forall>r \<in> set (rows group_s). lam r = name"
    using group_rows(2) [OF g] by blast
qed

lemma statistical_inefficiency_group_Inr:
  assumes "statistical_inefficiency_group ts column lower upper step conservative force grp
             = Inr (sel, statinef)"
  shows "\<exists>group_s series indices.
           slicing grp lower upper step False = Inr group_s
         \<and> getitem group_s column = Inr series
         \<and> statisticalInefficiency ts series = Inr statinef
         \<and> subsampleCorrelatedData ts series statinef conservative = Inr indices
         \<and> (\<forall>i \<in> set indices. i < length (rows group_s))
         \<and> sel = group_s\<lparr>rows := map (nth (rows group_s)) indices\<rparr>"
proof -
  obtain group_s where a: "slicing grp lower upper step False = Inr group_s"
    using assms unfolding statistical_inefficiency_group_def
    by (cases "slicing grp lower upper step False") simp_all
  have nodup: "\<not> (\<not> force \<and> check_multiple_times grp)"
    using assms unfolding statistical_inefficiency_group_def by (simp add: a split: if_splits)
  obtain series where b: "getitem group_s column = Inr series"
    using assms nodup unfolding statistical_inefficiency_group_def
    by (cases "getitem group_s column") (simp_all add: a)
  obtain g where c: "statisticalInefficiency ts series = Inr g"
    using assms nodup unfolding statistical_inefficiency_group_def
    by (cases "statisticalInefficiency ts series") (simp_all add: a b)
  obtain indices where d: "subsampleCorrelatedData ts series g conservative = Inr indices"
    using assms nodup unfolding statistical_inefficiency_group_def
    by (cases "subsampleCorrelatedData ts series g conservative") (simp_all add: a b c)
  obtain sel' where e: "iloc group_s indices = Inr sel'"
    using assms nodup unfolding statistical_inefficiency_group_def
    by (cases "iloc group_s indices") (simp_all add: a b c d)
  have f: "sel = sel'" "statinef = g"
    using assms nodup unfolding statistical_inefficiency_group_def by (simp_all add: a b c d e)
  have "(\<forall>i \<in> set indices. i < length (rows group_s))
      \<and> sel' = group_s\<lparr>rows := map (nth (rows group_s)) indices\<rparr>"
    using e by (simp add: iloc_def split: if_splits)
  then show ?thesis using a b c d f by blast
qed

lemma equilibrium_detection_group_Inr:
  assumes "equilibrium_detection_group ts column lower upper step conservative force grp
             = Inr (sel, statinef)"
  shows "\<exists>group_s series t Neff_max series_t indices.
           slicing grp lower upper step False = Inr group_s
         \<and> getitem group_s column = Inr series
         \<and> detectEquilibration ts series = Inr (t, statinef, Neff_max)
         \<and> getitem (iloc_from group_s t) column = Inr series_t
         \<and> subsampleCorrelatedData ts series_t statinef conservative = Inr indices
         \<and> (\<forall>i \<in> set indices. i < length (drop t (rows group_s)))
         \<and> sel = group_s\<lparr>rows := map (nth (drop t (rows group_s))) indices\<rparr>"
proof -
  obtain group_s where a: "slicing grp lower upper step False = Inr group_s"
    using assms unfolding equilibrium_detection_group_def
    by (cases "slicing grp lower upper step False") simp_all
  have nodup: "\<not> (\<not> force \<and> check_multiple_times grp)"
    using assms unfolding equilibrium_detection_group_def by (simp add: a split: if_splits)
  obtain series where b: "getitem group_s column = Inr series"
    using assms nodup unfolding equilibrium_detection_group_def
    by (cases "getitem group_s column") (simp_all add: a)
  obtain tgn where c0: "detectEquilibration ts series = Inr tgn"
    using assms nodup unfolding equilibrium_detection_group_def
    by (cases "detectEquilibration ts series") (simp_all add: a b)
  obtain t g n where tgn: "tgn = (t, g, n)" by (cases tgn)
  note c = c0 [unfolded tgn]
  obtain series_t where b': "getitem (iloc_from group_s t) column = Inr series_t"
    using assms nodup unfolding equilibrium_detection_group_def
    by (cases "getitem (iloc_from group_s t) column") (simp_all add: a b c)
  obtain indices where d: "subsampleCorrelatedData ts series_t g conservative = Inr indices"
    using assms nodup unfolding equilibrium_detection_group_def
    by (cases "subsampleCorrelatedData ts series_t g conservative") (simp_all add: a b c b')
  obtain sel' where e: "iloc (iloc_from group_s t) indices = Inr sel'"
    using assms nodup unfolding equilibrium_detection_group_def
    by (cases "iloc (iloc_from group_s t) indices") (simp_all add: a b c b' d)
  have f: "sel = sel'" "statinef = g"
    using assms nodup unfolding equilibrium_detection_group_def by (simp_all add: a b c b' d e)
  have "(\<forall>i \<in> set indices. i < length (drop t (rows group_s)))
      \<and> sel' = group_s\<lparr>rows := map (nth (drop t (rows group_s))) indices\<rparr>"
    using e by (simp add: iloc_def iloc_from_def split: if_splits)
  then show ?thesis using a b c b' d f by blast
qed

section \<open>The rows that survive subsampling\<close>

lemma subseq_concat_map:
  assumes "\<forall>x \<in> set xs. subseq (F x) (G x)"
  shows "subseq (concat (map F xs)) (concat (map G xs))"
  using assms
proof (induction xs)
  case Nil
  then show ?case by simp
next
  case (Cons x xs)
  have "subseq (F x) (G x)" and "subseq (concat (map F xs)) (concat (map G xs))"
    using Cons by simp_all
  then have "subseq (F x @ concat (map F xs)) (G x @ concat (map G xs))"
    by (rule list_emb_append_mono)
  then show ?case by simp
qed

lemma set_concat_map_mono:
  assumes "\<forall>x \<in> set xs. set (F x) \<subseteq> set (G x)"
  shows "set (concat (map F xs)) \<subseteq> set (concat (map G xs))"
  using assms by (induction xs) auto

lemma statistical_inefficiency_group_rows:
  assumes g: "(name, grp) \<in> set (groupby (sort_index data))"
    and ok: "statistical_inefficiency_group ts column lower upper step conservative force grp = Inr y"
  shows "slicing_group lower upper step False grp
           = Inr (grp\<lparr>rows := loc_rows lower upper step (rows grp)\<rparr>)"
    and "set (rows (fst y)) \<subseteq> set (loc_rows lower upper step (rows grp))"
    and "\<forall>r \<in> set (rows (fst y)). lam r = name"
    and "(\<And>A_t g indices. statisticalInefficiency ts A_t = Inr g \<Longrightarrow>
            subsampleCorrelatedData ts A_t g conservative = Inr indices \<Longrightarrow>
            sorted_wrt (<) indices) \<Longrightarrow>
         subseq (rows (fst y)) (loc_rows lower upper step (rows grp))
         \<and> (forwards step \<longrightarrow> sorted_wrt (<) (map time (rows (fst y))))
         \<and> (backwards step \<longrightarrow> sorted_wrt (>) (map time (rows (fst y))))"
proof -
  obtain sel statinef where y: "y = (sel, statinef)" by (cases y)
  obtain group_s series indices where
        sl: "slicing grp lower upper step False = Inr group_s"
    and est: "statisticalInefficiency ts series = Inr statinef"
    and sub: "subsampleCorrelatedData ts series statinef conservative = Inr indices"
    and range: "\<forall>i \<in> set indices. i < length (rows group_s)"
    and sel: "sel = group_s\<lparr>rows := map (nth (rows group_s)) indices\<rparr>"
    using statistical_inefficiency_group_Inr [OF ok [unfolded y]] by blast
  note pre = group_pre_slicing [OF g sl]
  have rows_s: "rows group_s = loc_rows lower upper step (rows grp)" using pre(1) by simp
  have rows_y: "rows (fst y) = map (nth (rows group_s)) indices" by (simp add: y sel)
  show "slicing_group lower upper step False grp
           = Inr (grp\<lparr>rows := loc_rows lower upper step (rows grp)\<rparr>)"
    using sl pre(1) by (simp only: group_slicing [OF g])
  show incl: "set (rows (fst y)) \<subseteq> set (loc_rows lower upper step (rows grp))"
    using range unfolding rows_y rows_s [symmetric] by auto
  show "\<forall>r \<in> set (rows (fst y)). lam r = name"
    using incl pre(5) unfolding rows_s [symmetric] by blast
  show "subseq (rows (fst y)) (loc_rows lower upper step (rows grp))
         \<and> (forwards step \<longrightarrow> sorted_wrt (<) (map time (rows (fst y))))
         \<and> (backwards step \<longrightarrow> sorted_wrt (>) (map time (rows (fst y))))"
    if contract: "\<And>A_t g indices. statisticalInefficiency ts A_t = Inr g \<Longrightarrow>
            subsampleCorrelatedData ts A_t g conservative = Inr indices \<Longrightarrow>
            sorted_wrt (<) indices"
  proof -
    have "sorted_wrt (<) indices" using est sub by (rule contract)
    then have s: "subseq (rows (fst y)) (rows group_s)"
      unfolding rows_y using range by (rule subseq_map_nth)
    have d: "distinct (map time (rows (fst y)))" using s pre(2) by (rule subseq_distinct_map)
    have "sorted_wrt (<) (map time (rows (fst y)))" if "forwards step"
    proof -
      have "sorted (map time (rows (fst y)))" using s pre(3) [OF that] by (rule subseq_sorted_map)
      then show ?thesis using d by (rule increasing_times)
    qed
    moreover have "sorted_wrt (>) (map time (rows (fst y)))" if "backwards step"
    proof -
      have "sorted (rev (map time (rows (fst y))))"
        using s pre(4) [OF that] by (rule subseq_sorted_rev_map)
      then show ?thesis using d by (rule decreasing_times)
    qed
    ultimately show ?thesis using s by (simp add: rows_s)
  qed
qed

lemma sorted_uniform_indices: "sorted_wrt (<) (uniform_indices T g)"
proof -
  have "sorted_wrt (<) [0..<T]" by (simp add: strict_sorted_iff)
  then show ?thesis unfolding uniform_indices_def by (rule sorted_wrt_filter)
qed

text \<open>
  Claim C7, as the code has it. The rows that \<^verbatim>\<open>statistical_inefficiency\<close> returns
  are rows that \<^verbatim>\<open>slicing\<close> returns for the same bounds, for every choice of the
  bounds. When the positions that the subsample routine hands back are increasing, they
  come in the order in which \<^verbatim>\<open>slicing\<close> returns them: within each lambda-state
  group the times are strictly increasing when the step is unset or positive, and strictly
  decreasing when the step is negative, since a negative step slices the group backwards.
\<close>

theorem statistical_inefficiency_rows_of_slicing:
  assumes "statistical_inefficiency ts data how column lower upper step conservative rc force
             = Inr (out, calc)"
  shows "\<exists>sl. slicing data lower upper step False = Inr sl
           \<and> set (rows out) \<subseteq> set (rows sl)
           \<and> (forwards step \<or> backwards step)
           \<and> ((\<forall>A_t g indices. statisticalInefficiency ts A_t = Inr g \<longrightarrow>
                   subsampleCorrelatedData ts A_t g conservative = Inr indices \<longrightarrow>
                   sorted_wrt (<) indices) \<longrightarrow>
                subseq (rows out) (rows sl)
                \<and> (\<forall>name.
                     (forwards step \<longrightarrow>
                        sorted_wrt (<) (map time (filter (\<lambda>r. lam r = name) (rows out))))
                   \<and> (backwards step \<longrightarrow>
                        sorted_wrt (>) (map time (filter (\<lambda>r. lam r = name) (rows out))))))"
proof -
  let ?gs = "groupby (sort_index data)"
  let ?f = "statistical_inefficiency_group ts column lower upper step conservative force"
  let ?R = "\<lambda>grp. rows (fst (projr (?f grp)))"
  let ?L = "\<lambda>grp. loc_rows lower upper step (rows grp)"
  let ?sl = "(sort_index data)\<lparr>rows := concat (map (\<lambda>(name, grp). ?L grp) ?gs)\<rparr>"
  note si = statistical_inefficiency_Inr [OF assms]
  have ok: "\<exists>y. ?f grp = Inr y" if "(name, grp) \<in> set ?gs" for name grp
    using si(1) that by blast
  have proj: "?f grp = Inr (projr (?f grp))" if "(name, grp) \<in> set ?gs" for name grp
    using ok [OF that] by auto
  have out: "rows out = concat (map (\<lambda>(name, grp). ?R grp) ?gs)" by (rule si(2))
  have "\<forall>(name, grp) \<in> set ?gs. \<exists>y. slicing_group lower upper step False grp = Inr y"
  proof (intro ballI, clarify)
    fix name grp assume g: "(name, grp) \<in> set ?gs"
    show "\<exists>y. slicing_group lower upper step False grp = Inr y"
      using statistical_inefficiency_group_rows(1) [OF g proj [OF g]] by blast
  qed
  then have sl: "slicing data lower upper step False = Inr ?sl"
    using si(4) by (simp only: slicing_Inr_iff) simp
  have dir: "forwards step \<or> backwards step"
  proof -
    have "?gs \<noteq> []" using si(4) by (simp add: groupby_eq_Nil rows_sort_index_Nil)
    then obtain name grp where g: "(name, grp) \<in> set ?gs" by (cases ?gs) auto
    have "slicing_group lower upper step False grp
            = Inr (grp\<lparr>rows := loc_rows lower upper step (rows grp)\<rparr>)"
      by (rule statistical_inefficiency_group_rows(1) [OF g proj [OF g]])
    then have "step \<noteq> Some 0" by (auto simp: slicing_group_eq split: if_splits)
    then show ?thesis by (rule step_direction)
  qed
  have incl: "set (rows out) \<subseteq> set (rows ?sl)"
  proof -
    have "\<forall>x \<in> set ?gs. set ((\<lambda>(name, grp). ?R grp) x) \<subseteq> set ((\<lambda>(name, grp). ?L grp) x)"
    proof
      fix x assume x: "x \<in> set ?gs"
      obtain name grp where p: "x = (name, grp)" by (cases x)
      show "set ((\<lambda>(name, grp). ?R grp) x) \<subseteq> set ((\<lambda>(name, grp). ?L grp) x)"
        using statistical_inefficiency_group_rows(2) [OF x [unfolded p] proj [OF x [unfolded p]]]
        by (simp add: p)
    qed
    then have "set (concat (map (\<lambda>(name, grp). ?R grp) ?gs))
             \<subseteq> set (concat (map (\<lambda>(name, grp). ?L grp) ?gs))"
      by (rule set_concat_map_mono)
    then show ?thesis by (simp only: out) simp
  qed
  have ordered: "subseq (rows out) (rows ?sl)
       \<and> (\<forall>name.
             (forwards step \<longrightarrow>
                sorted_wrt (<) (map time (filter (\<lambda>r. lam r = name) (rows out))))
           \<and> (backwards step \<longrightarrow>
                sorted_wrt (>) (map time (filter (\<lambda>r. lam r = name) (rows out)))))"
    if contract: "\<forall>A_t g indices. statisticalInefficiency ts A_t = Inr g \<longrightarrow>
                   subsampleCorrelatedData ts A_t g conservative = Inr indices \<longrightarrow>
                   sorted_wrt (<) indices"
  proof -
    have c: "\<And>A_t g indices. statisticalInefficiency ts A_t = Inr g \<Longrightarrow>
            subsampleCorrelatedData ts A_t g conservative = Inr indices \<Longrightarrow>
            sorted_wrt (<) indices"
      using contract by blast
    have grp_facts: "subseq (?R grp) (?L grp)
        \<and> (forwards step \<longrightarrow> sorted_wrt (<) (map time (?R grp)))
        \<and> (backwards step \<longrightarrow> sorted_wrt (>) (map time (?R grp)))"
      if g: "(name, grp) \<in> set ?gs" for name grp
      using statistical_inefficiency_group_rows(4) [OF g proj [OF g]] c by blast
    have "\<forall>x \<in> set ?gs. subseq ((\<lambda>(name, grp). ?R grp) x) ((\<lambda>(name, grp). ?L grp) x)"
    proof
      fix x assume x: "x \<in> set ?gs"
      obtain name grp where p: "x = (name, grp)" by (cases x)
      show "subseq ((\<lambda>(name, grp). ?R grp) x) ((\<lambda>(name, grp). ?L grp) x)"
        using grp_facts [OF x [unfolded p]] by (simp add: p)
    qed
    then have "subseq (concat (map (\<lambda>(name, grp). ?R grp) ?gs))
                      (concat (map (\<lambda>(name, grp). ?L grp) ?gs))"
      by (rule subseq_concat_map)
    then have s: "subseq (rows out) (rows ?sl)" by (simp only: out) simp
    have lam_R: "\<forall>(name, grp) \<in> set ?gs. \<forall>r \<in> set (?R grp). lam r = name"
    proof (intro ballI, clarify)
      fix name grp r assume g: "(name, grp) \<in> set ?gs" and r: "r \<in> set (?R grp)"
      show "lam r = name"
        using statistical_inefficiency_group_rows(3) [OF g proj [OF g]] r by blast
    qed
    have "(forwards step \<longrightarrow>
             sorted_wrt (<) (map time (filter (\<lambda>r. lam r = name) (rows out))))
        \<and> (backwards step \<longrightarrow>
             sorted_wrt (>) (map time (filter (\<lambda>r. lam r = name) (rows out))))" for name
    proof (cases "name \<in> fst ` set ?gs")
      case True
      then obtain grp where g: "(name, grp) \<in> set ?gs" by auto
      have "filter (\<lambda>r. lam r = name) (rows out) = ?R grp"
        unfolding out using group_keys_distinct lam_R g by (rule filter_concat_groups(1))
      then show ?thesis using grp_facts [OF g] by simp
    next
      case False
      have "filter (\<lambda>r. lam r = name) (rows out) = []"
        unfolding out using group_keys_distinct lam_R False by (rule filter_concat_groups(2))
      then show ?thesis by simp
    qed
    then show ?thesis using s by blast
  qed
  show ?thesis using sl incl dir ordered by blast
qed

theorem statistical_inefficiency_rows_of_slicing_witness:
  "statistical_inefficiency (reporting 0 2 1)
      (mk_frame [mk_row 0 (0::nat) 5, mk_row 1 0 6, mk_row 2 0 7])
      Auto (Some ''fep'') None None None True False False
     = Inr (mk_frame [mk_row 0 0 5, mk_row 2 0 7], None)
   \<and> forwards None
   \<and> (\<exists>sl. slicing (mk_frame [mk_row 0 (0::nat) 5, mk_row 1 0 6, mk_row 2 0 7])
               None None None False = Inr sl
          \<and> set (rows (mk_frame [mk_row 0 (0::nat) 5, mk_row 2 0 7])) \<subseteq> set (rows sl)
          \<and> subseq (rows (mk_frame [mk_row 0 (0::nat) 5, mk_row 2 0 7])) (rows sl)
          \<and> (\<forall>name. sorted_wrt (<) (map time (filter (\<lambda>r. lam r = name)
                 (rows (mk_frame [mk_row 0 (0::nat) 5, mk_row 2 0 7]))))))
   \<and> statistical_inefficiency (reporting 0 2 1)
      (mk_frame [mk_row 0 (0::nat) 5, mk_row 1 0 6, mk_row 2 0 7])
      Auto (Some ''fep'') None None (Some (- 1)) True False False
     = Inr (mk_frame [mk_row 2 0 7, mk_row 0 0 5], None)
   \<and> backwards (Some (- 1))
   \<and> (\<exists>sl. slicing (mk_frame [mk_row 0 (0::nat) 5, mk_row 1 0 6, mk_row 2 0 7])
               None None (Some (- 1)) False = Inr sl
          \<and> set (rows (mk_frame [mk_row 2 (0::nat) 7, mk_row 0 0 5])) \<subseteq> set (rows sl)
          \<and> subseq (rows (mk_frame [mk_row 2 (0::nat) 7, mk_row 0 0 5])) (rows sl)
          \<and> (\<forall>name. sorted_wrt (>) (map time (filter (\<lambda>r. lam r = name)
                 (rows (mk_frame [mk_row 2 (0::nat) 7, mk_row 0 0 5]))))))"
proof -
  let ?F = "mk_frame [mk_row 0 (0::nat) 5, mk_row 1 0 6, mk_row 2 0 7]"
  have run: "statistical_inefficiency (reporting 0 2 1) ?F
      Auto (Some ''fep'') None None None True False False
     = Inr (mk_frame [mk_row 0 0 5, mk_row 2 0 7], None)"
    by (simp add: run_defs)
  have run': "statistical_inefficiency (reporting 0 2 1) ?F
      Auto (Some ''fep'') None None (Some (- 1)) True False False
     = Inr (mk_frame [mk_row 2 0 7, mk_row 0 0 5], None)"
    by (simp add: run_defs)
  have fw: "forwards None" by (simp add: forwards_def)
  have bw: "backwards (Some (- 1))" by (simp add: backwards_def)
  have contract: "\<forall>A_t g indices. statisticalInefficiency (reporting 0 2 1) A_t = Inr g \<longrightarrow>
      subsampleCorrelatedData (reporting 0 2 1) A_t g True = Inr indices \<longrightarrow>
      sorted_wrt (<) indices"
    by (auto simp: reporting_def subsample_indices_def sorted_uniform_indices)
  have a: "\<exists>sl. slicing ?F None None None False = Inr sl
          \<and> set (rows (mk_frame [mk_row 0 (0::nat) 5, mk_row 2 0 7])) \<subseteq> set (rows sl)
          \<and> subseq (rows (mk_frame [mk_row 0 (0::nat) 5, mk_row 2 0 7])) (rows sl)
          \<and> (\<forall>name. sorted_wrt (<) (map time (filter (\<lambda>r. lam r = name)
                 (rows (mk_frame [mk_row 0 (0::nat) 5, mk_row 2 0 7])))))"
    using contract fw statistical_inefficiency_rows_of_slicing [OF run] by blast
  have b: "\<exists>sl. slicing ?F None None (Some (- 1)) False = Inr sl
          \<and> set (rows (mk_frame [mk_row 2 (0::nat) 7, mk_row 0 0 5])) \<subseteq> set (rows sl)
          \<and> subseq (rows (mk_frame [mk_row 2 (0::nat) 7, mk_row 0 0 5])) (rows sl)
          \<and> (\<forall>name. sorted_wrt (>) (map time (filter (\<lambda>r. lam r = name)
                 (rows (mk_frame [mk_row 2 (0::nat) 7, mk_row 0 0 5])))))"
    using contract bw statistical_inefficiency_rows_of_slicing [OF run'] by blast
  show ?thesis using run run' fw bw a b by blast
qed

theorem statistical_inefficiency_times_decrease_backwards:
  "statistical_inefficiency (reporting 0 1 1)
      (mk_frame [mk_row 0 (0::nat) 5, mk_row 1 0 6, mk_row 2 0 7])
      Auto (Some ''fep'') None None (Some (- 1)) True False False
     = Inr (mk_frame [mk_row 2 0 7, mk_row 1 0 6, mk_row 0 0 5], None)
   \<and> slicing (mk_frame [mk_row 0 (0::nat) 5, mk_row 1 0 6, mk_row 2 0 7])
        None None (Some (- 1)) False
     = Inr (mk_frame [mk_row 2 0 7, mk_row 1 0 6, mk_row 0 0 5])
   \<and> \<not> sorted_wrt (<) (map time (filter (\<lambda>r. lam r = 0)
          (rows (mk_frame [mk_row 2 (0::nat) 7, mk_row 1 0 6, mk_row 0 0 5]))))"
  by (simp add: run_defs)

section \<open>Rows before the equilibration cutoff\<close>

lemma getitem_iloc_from:
  assumes "getitem df column = Inr series"
  shows "getitem (iloc_from df t) column = Inr (drop t series)"
  using assms by (auto simp: getitem_def iloc_from_def drop_map split: option.splits if_splits)

lemma equilibrium_detection_group_in_output:
  assumes run: "equilibrium_detection ts data how column lower upper step conservative rc force
                  = Inr (out, calc)"
    and g: "(name, grp) \<in> set (groupby (sort_index data))"
  shows "\<exists>group_s series t statinef Neff_max indices.
           slicing grp lower upper step False = Inr group_s
         \<and> getitem group_s column = Inr series
         \<and> detectEquilibration ts series = Inr (t, statinef, Neff_max)
         \<and> subsampleCorrelatedData ts (drop t series) statinef conservative = Inr indices
         \<and> filter (\<lambda>r. lam r = name) (rows out) = map (nth (drop t (rows group_s))) indices
         \<and> (\<forall>r \<in> set (rows out). lam r = name \<longrightarrow>
               t < length (rows group_s)
               \<and> (forwards step \<longrightarrow> time (rows group_s ! t) \<le> time r)
               \<and> (backwards step \<longrightarrow> time r \<le> time (rows group_s ! t)))"
proof -
  let ?gs = "groupby (sort_index data)"
  let ?f = "equilibrium_detection_group ts column lower upper step conservative force"
  let ?R = "\<lambda>grp. rows (fst (projr (?f grp)))"
  note ed = equilibrium_detection_Inr [OF run]
  have proj: "?f grp = Inr (projr (?f grp))" if "(name, grp) \<in> set ?gs" for name grp
    using ed(1) that by fastforce
  have out: "rows out = concat (map (\<lambda>(name, grp). ?R grp) ?gs)" by (rule ed(2))
  have decomp: "\<exists>group_s series t statinef Neff_max indices.
           slicing grp lower upper step False = Inr group_s
         \<and> getitem group_s column = Inr series
         \<and> detectEquilibration ts series = Inr (t, statinef, Neff_max)
         \<and> subsampleCorrelatedData ts (drop t series) statinef conservative = Inr indices
         \<and> (\<forall>i \<in> set indices. i < length (drop t (rows group_s)))
         \<and> ?R grp = map (nth (drop t (rows group_s))) indices"
    if g': "(name, grp) \<in> set ?gs" for name grp
  proof -
    obtain sel statinef where y: "projr (?f grp) = (sel, statinef)" by (cases "projr (?f grp)")
    obtain group_s series t Neff_max series_t indices where
          a: "slicing grp lower upper step False = Inr group_s"
      and b: "getitem group_s column = Inr series"
      and c: "detectEquilibration ts series = Inr (t, statinef, Neff_max)"
      and b': "getitem (iloc_from group_s t) column = Inr series_t"
      and d: "subsampleCorrelatedData ts series_t statinef conservative = Inr indices"
      and e: "\<forall>i \<in> set indices. i < length (drop t (rows group_s))"
      and f: "sel = group_s\<lparr>rows := map (nth (drop t (rows group_s))) indices\<rparr>"
      using equilibrium_detection_group_Inr [OF proj [OF g', unfolded y]] by blast
    have "series_t = drop t series" using b' getitem_iloc_from [OF b, of t] by simp
    moreover have "?R grp = map (nth (drop t (rows group_s))) indices" by (simp add: y f)
    ultimately show ?thesis using a b c d e by blast
  qed
  obtain group_s series t statinef Neff_max indices where
        a: "slicing grp lower upper step False = Inr group_s"
    and b: "getitem group_s column = Inr series"
    and c: "detectEquilibration ts series = Inr (t, statinef, Neff_max)"
    and d: "subsampleCorrelatedData ts (drop t series) statinef conservative = Inr indices"
    and e: "\<forall>i \<in> set indices. i < length (drop t (rows group_s))"
    and R: "?R grp = map (nth (drop t (rows group_s))) indices"
    using decomp [OF g] by blast
  note pre = group_pre_slicing [OF g a]
  have lam_R: "\<forall>(name, grp) \<in> set ?gs. \<forall>r \<in> set (?R grp). lam r = name"
  proof (intro ballI, clarify)
    fix name' grp' r assume g': "(name', grp') \<in> set ?gs" and r: "r \<in> set (?R grp')"
    obtain group_s' t' indices' where
          a': "slicing grp' lower upper step False = Inr group_s'"
      and e': "\<forall>i \<in> set indices'. i < length (drop t' (rows group_s'))"
      and R': "?R grp' = map (nth (drop t' (rows group_s'))) indices'"
      using decomp [OF g'] by blast
    have "r \<in> set (drop t' (rows group_s'))" using r e' unfolding R' by auto
    then have "r \<in> set (rows group_s')" by (rule in_set_dropD)
    then show "lam r = name'" using group_pre_slicing(5) [OF g' a'] by blast
  qed
  have filt: "filter (\<lambda>r. lam r = name) (rows out) = map (nth (drop t (rows group_s))) indices"
    unfolding out R [symmetric]
    using group_keys_distinct lam_R g by (rule filter_concat_groups(1))
  have bound: "t < length (rows group_s)
               \<and> (forwards step \<longrightarrow> time (rows group_s ! t) \<le> time r)
               \<and> (backwards step \<longrightarrow> time r \<le> time (rows group_s ! t))"
    if r: "r \<in> set (rows out)" and l: "lam r = name" for r
  proof -
    have "r \<in> set (filter (\<lambda>r. lam r = name) (rows out))" using r l by simp
    then obtain i where i: "i \<in> set indices" "r = drop t (rows group_s) ! i"
      unfolding filt by auto
    have lt: "i < length (drop t (rows group_s))" using e i(1) by blast
    then have ti: "t + i < length (rows group_s)" by simp
    have r_eq: "r = rows group_s ! (t + i)" using i(2) ti by simp
    have "time (rows group_s ! t) \<le> time r" if "forwards step"
    proof -
      have "map time (rows group_s) ! t \<le> map time (rows group_s) ! (t + i)"
        using pre(3) [OF that] ti by (intro sorted_nth_mono) simp_all
      then show ?thesis using ti r_eq by simp
    qed
    moreover have "time r \<le> time (rows group_s ! t)" if "backwards step"
    proof -
      have "map time (rows group_s) ! (t + i) \<le> map time (rows group_s) ! t"
        using pre(4) [OF that] ti by (intro sorted_rev_nth_mono) simp_all
      then show ?thesis using ti r_eq by simp
    qed
    ultimately show ?thesis using ti by simp
  qed
  show ?thesis using a b c d filt bound by blast
qed

text \<open>
  Claim C8, as the code has it. For every lambda-state group,
  \<^verbatim>\<open>equilibrium_detection\<close> drops the rows before the cutoff position \<open>t\<close> of the
  sliced group and computes the subsample positions on what is left, so the rows of the
  group in the output are taken from the truncated group. When the step is unset or
  positive the sliced group is in ascending time, and no output row has a time earlier
  than the time at position \<open>t\<close>; when the step is negative the sliced group is in
  descending time, and no output row has a time later than the time at position \<open>t\<close>.
\<close>

theorem equilibrium_detection_rows_after_cutoff:
  assumes run: "equilibrium_detection ts data how column lower upper step conservative rc force
                  = Inr (out, calc)"
    and g: "(name, grp) \<in> set (groupby (sort_index data))"
  shows "\<exists>group_s series t statinef Neff_max indices.
           slicing grp lower upper step False = Inr group_s
         \<and> getitem group_s column = Inr series
         \<and> detectEquilibration ts series = Inr (t, statinef, Neff_max)
         \<and> subsampleCorrelatedData ts (drop t series) statinef conservative = Inr indices
         \<and> filter (\<lambda>r. lam r = name) (rows out) = map (nth (drop t (rows group_s))) indices
         \<and> (\<forall>r \<in> set (rows out). lam r = name \<longrightarrow>
               t < length (rows group_s)
               \<and> (forwards step \<longrightarrow> time (rows group_s ! t) \<le> time r)
               \<and> (backwards step \<longrightarrow> time r \<le> time (rows group_s ! t)))"
  using run g by (rule equilibrium_detection_group_in_output)

theorem equilibrium_detection_rows_after_cutoff_witness:
  "equilibrium_detection (reporting 1 2 (3 / 2))
      (mk_frame [mk_row 0 (0::nat) 5, mk_row 1 0 6, mk_row 2 0 7])
      Auto (Some ''fep'') None None None True False False
     = Inr (mk_frame [mk_row 1 0 6], None)
   \<and> groupby (sort_index (mk_frame [mk_row 0 (0::nat) 5, mk_row 1 0 6, mk_row 2 0 7]))
     = [(0, mk_frame [mk_row 0 0 5, mk_row 1 0 6, mk_row 2 0 7])]
   \<and> forwards None
   \<and> (\<exists>group_s series t statinef Neff_max indices.
           slicing (mk_frame [mk_row 0 (0::nat) 5, mk_row 1 0 6, mk_row 2 0 7])
             None None None False = Inr group_s
         \<and> getitem group_s (Some ''fep'') = Inr series
         \<and> detectEquilibration (reporting 1 2 (3 / 2)) series = Inr (t, statinef, Neff_max)
         \<and> subsampleCorrelatedData (reporting 1 2 (3 / 2)) (drop t series) statinef True
             = Inr indices
         \<and> filter (\<lambda>r. lam r = 0) (rows (mk_frame [mk_row 1 (0::nat) 6]))
             = map (nth (drop t (rows group_s))) indices
         \<and> (\<forall>r \<in> set (rows (mk_frame [mk_row 1 (0::nat) 6])). lam r = 0 \<longrightarrow>
               t < length (rows group_s) \<and> time (rows group_s ! t) \<le> time r))
   \<and> equilibrium_detection (reporting 1 1 1)
      (mk_frame [mk_row 0 (0::nat) 5, mk_row 1 0 6, mk_row 2 0 7])
      Auto (Some ''fep'') None None (Some (- 1)) True False False
     = Inr (mk_frame [mk_row 1 0 6, mk_row 0 0 5], None)
   \<and> backwards (Some (- 1))
   \<and> (\<exists>group_s series t statinef Neff_max indices.
           slicing (mk_frame [mk_row 0 (0::nat) 5, mk_row 1 0 6, mk_row 2 0 7])
             None None (Some (- 1)) False = Inr group_s
         \<and> getitem group_s (Some ''fep'') = Inr series
         \<and> detectEquilibration (reporting 1 1 1) series = Inr (t, statinef, Neff_max)
         \<and> subsampleCorrelatedData (reporting 1 1 1) (drop t series) statinef True
             = Inr indices
         \<and> filter (\<lambda>r. lam r = 0) (rows (mk_frame [mk_row 1 (0::nat) 6, mk_row 0 0 5]))
             = map (nth (drop t (rows group_s))) indices
         \<and> (\<forall>r \<in> set (rows (mk_frame [mk_row 1 (0::nat) 6, mk_row 0 0 5])). lam r = 0 \<longrightarrow>
               t < length (rows group_s) \<and> time r \<le> time (rows group_s ! t)))"
proof -
  let ?F = "mk_frame [mk_row 0 (0::nat) 5, mk_row 1 0 6, mk_row 2 0 7]"
  have run: "equilibrium_detection (reporting 1 2 (3 / 2)) ?F
      Auto (Some ''fep'') None None None True False False
     = Inr (mk_frame [mk_row 1 0 6], None)"
    by (simp add: run_defs)
  have run': "equilibrium_detection (reporting 1 1 1) ?F
      Auto (Some ''fep'') None None (Some (- 1)) True False False
     = Inr (mk_frame [mk_row 1 0 6, mk_row 0 0 5], None)"
    by (simp add: run_defs)
  have gs: "groupby (sort_index ?F) = [(0, ?F)]"
    by (simp add: run_defs)
  have g: "(0, ?F) \<in> set (groupby (sort_index ?F))"
    by (simp only: gs) simp
  have fw: "forwards None" by (simp add: forwards_def)
  have bw: "backwards (Some (- 1))" by (simp add: backwards_def)
  have a: "\<exists>group_s series t statinef Neff_max indices.
           slicing ?F None None None False = Inr group_s
         \<and> getitem group_s (Some ''fep'') = Inr series
         \<and> detectEquilibration (reporting 1 2 (3 / 2)) series = Inr (t, statinef, Neff_max)
         \<and> subsampleCorrelatedData (reporting 1 2 (3 / 2)) (drop t series) statinef True
             = Inr indices
         \<and> filter (\<lambda>r. lam r = 0) (rows (mk_frame [mk_row 1 (0::nat) 6]))
             = map (nth (drop t (rows group_s))) indices
         \<and> (\<forall>r \<in> set (rows (mk_frame [mk_row 1 (0::nat) 6])). lam r = 0 \<longrightarrow>
               t < length (rows group_s) \<and> time (rows group_s ! t) \<le> time r)"
    using fw equilibrium_detection_rows_after_cutoff [OF run g] by blast
  have b: "\<exists>group_s series t statinef Neff_max indices.
           slicing ?F None None (Some (- 1)) False = Inr group_s
         \<and> getitem group_s (Some ''fep'') = Inr series
         \<and> detectEquilibration (reporting 1 1 1) series = Inr (t, statinef, Neff_max)
         \<and> subsampleCorrelatedData (reporting 1 1 1) (drop t series) statinef True
             = Inr indices
         \<and> filter (\<lambda>r. lam r = 0) (rows (mk_frame [mk_row 1 (0::nat) 6, mk_row 0 0 5]))
             = map (nth (drop t (rows group_s))) indices
         \<and> (\<forall>r \<in> set (rows (mk_frame [mk_row 1 (0::nat) 6, mk_row 0 0 5])). lam r = 0 \<longrightarrow>
               t < length (rows group_s) \<and> time r \<le> time (rows group_s ! t))"
    using bw equilibrium_detection_rows_after_cutoff [OF run' g] by blast
  show ?thesis using run run' gs fw bw a b by blast
qed

theorem equilibrium_detection_keeps_earlier_rows_backwards:
  "equilibrium_detection (reporting 1 1 1)
      (mk_frame [mk_row 0 (0::nat) 5, mk_row 1 0 6, mk_row 2 0 7])
      Auto (Some ''fep'') None None (Some (- 1)) True False False
     = Inr (mk_frame [mk_row 1 0 6, mk_row 0 0 5], None)
   \<and> slicing (mk_frame [mk_row 0 (0::nat) 5, mk_row 1 0 6, mk_row 2 0 7])
        None None (Some (- 1)) False
     = Inr (mk_frame [mk_row 2 0 7, mk_row 1 0 6, mk_row 0 0 5])
   \<and> detectEquilibration (reporting 1 1 1) [7, 6, 5] = Inr (1, 1, 1)
   \<and> time (mk_row 0 (0::nat) 5)
       < time (rows (mk_frame [mk_row 2 (0::nat) 7, mk_row 1 0 6, mk_row 0 0 5]) ! 1)"
  by (simp add: run_defs)

section \<open>One group in the output and in the diagnostics\<close>

lemma statistical_inefficiency_group_of_output:
  assumes run: "statistical_inefficiency ts data how column lower upper step conservative rc force
                  = Inr (out, calc)"
    and g: "(name, grp) \<in> set (groupby (sort_index data))"
  shows "\<exists>sel statinef.
           statistical_inefficiency_group ts column lower upper step conservative force grp
             = Inr (sel, statinef)
         \<and> filter (\<lambda>r. lam r = name) (rows out) = rows sel
         \<and> (rc \<longrightarrow> (\<exists>c. calc = Some c \<and> entry c ''statinef'' name = Some statinef))"
proof -
  let ?gs = "groupby (sort_index data)"
  let ?f = "statistical_inefficiency_group ts column lower upper step conservative force"
  let ?R = "\<lambda>grp. rows (fst (projr (?f grp)))"
  note si = statistical_inefficiency_Inr [OF run]
  have proj: "?f grp = Inr (projr (?f grp))" if "(name, grp) \<in> set ?gs" for name grp
    using si(1) that by fastforce
  obtain sel statinef where y: "projr (?f grp) = (sel, statinef)" by (cases "projr (?f grp)")
  have lam_R: "\<forall>(name, grp) \<in> set ?gs. \<forall>r \<in> set (?R grp). lam r = name"
  proof (intro ballI, clarify)
    fix name grp r assume g': "(name, grp) \<in> set ?gs" and r: "r \<in> set (?R grp)"
    show "lam r = name"
      using statistical_inefficiency_group_rows(3) [OF g' proj [OF g']] r by blast
  qed
  have "filter (\<lambda>r. lam r = name) (rows out) = ?R grp"
    unfolding si(2) using group_keys_distinct lam_R g by (rule filter_concat_groups(1))
  then have filt: "filter (\<lambda>r. lam r = name) (rows out) = rows sel" by (simp add: y)
  have "\<exists>c. calc = Some c \<and> entry c ''statinef'' name = Some statinef" if rc
  proof -
    let ?c = "fold (\<lambda>(name, grp) c. setitem c ''statinef'' name (snd (projr (?f grp)))) ?gs Map.empty"
    have "entry ?c ''statinef'' name = Some (snd (projr (?f grp)))"
      using group_keys_distinct g
      by (rule entry_fold [where U = "\<lambda>name grp c. setitem c ''statinef'' name (snd (projr (?f grp)))",
            rotated]) (simp add: entry_setitem)
    then show ?thesis using si(3) that by (simp add: y)
  qed
  then show ?thesis using proj [OF g] y filt by auto
qed

lemma equilibrium_detection_group_of_output:
  assumes run: "equilibrium_detection ts data how column lower upper step conservative rc force
                  = Inr (out, calc)"
    and g: "(name, grp) \<in> set (groupby (sort_index data))"
  shows "\<exists>sel statinef.
           equilibrium_detection_group ts column lower upper step conservative force grp
             = Inr (sel, statinef)
         \<and> filter (\<lambda>r. lam r = name) (rows out) = rows sel
         \<and> (rc \<longrightarrow> (\<exists>c. calc = Some c \<and> entry c ''statinef'' name = Some statinef))"
proof -
  let ?gs = "groupby (sort_index data)"
  let ?f = "equilibrium_detection_group ts column lower upper step conservative force"
  let ?R = "\<lambda>grp. rows (fst (projr (?f grp)))"
  note ed = equilibrium_detection_Inr [OF run]
  have proj: "?f grp = Inr (projr (?f grp))" if "(name, grp) \<in> set ?gs" for name grp
    using ed(1) that by fastforce
  obtain sel statinef where y: "projr (?f grp) = (sel, statinef)" by (cases "projr (?f grp)")
  have "filter (\<lambda>r. lam r = name) (rows out) = ?R grp"
  proof -
    obtain group_s series t st n indices where
      "filter (\<lambda>r. lam r = name) (rows out) = map (nth (drop t (rows group_s))) indices"
      and a: "slicing grp lower upper step False = Inr group_s"
      and b: "getitem group_s column = Inr series"
      and c: "detectEquilibration ts series = Inr (t, st, n)"
      and d: "subsampleCorrelatedData ts (drop t series) st conservative = Inr indices"
      using equilibrium_detection_group_in_output [OF run g] by blast
    moreover obtain group_s' series' t' n' series_t' indices' where
          a': "slicing grp lower upper step False = Inr group_s'"
      and b': "getitem group_s' column = Inr series'"
      and c': "detectEquilibration ts series' = Inr (t', statinef, n')"
      and b'': "getitem (iloc_from group_s' t') column = Inr series_t'"
      and d': "subsampleCorrelatedData ts series_t' statinef conservative = Inr indices'"
      and f': "sel = group_s'\<lparr>rows := map (nth (drop t' (rows group_s'))) indices'\<rparr>"
      using equilibrium_detection_group_Inr [OF proj [OF g, unfolded y]] by blast
    have "group_s' = group_s" using a a' by simp
    moreover have "series' = series" using b b' \<open>group_s' = group_s\<close> by simp
    moreover have "t' = t" "statinef = st" using c c' \<open>series' = series\<close> by simp_all
    moreover have "series_t' = drop t series"
      using b'' getitem_iloc_from [OF b, of t] \<open>group_s' = group_s\<close> \<open>t' = t\<close> by simp
    moreover have "indices' = indices"
      using d d' \<open>series_t' = drop t series\<close> \<open>statinef = st\<close> by simp
    ultimately show ?thesis by (simp add: y f')
  qed
  then have filt: "filter (\<lambda>r. lam r = name) (rows out) = rows sel" by (simp add: y)
  have "\<exists>c. calc = Some c \<and> entry c ''statinef'' name = Some statinef" if rc
  proof -
    let ?U = "\<lambda>name grp c. setitem (setitem (setitem c
                 ''t'' name (snd (projr (?f grp))))
                 ''statinef'' name (snd (projr (?f grp))))
                 ''Neff_max'' name (snd (projr (?f grp)))"
    have "entry (fold (\<lambda>(name, grp). ?U name grp) ?gs Map.empty) ''statinef'' name
            = Some (snd (projr (?f grp)))"
      using group_keys_distinct g
      by (rule entry_fold [where U = ?U, rotated]) (simp add: entry_setitem)
    then show ?thesis using ed(3) that by (simp add: y)
  qed
  then show ?thesis using proj [OF g] y filt by auto
qed

section \<open>Groups that are empty after slicing\<close>

lemma getitem_Nil:
  assumes "getitem df column = Inr series" and "rows df = []"
  shows "series = []"
  using assms by (auto simp: getitem_def split: option.splits if_splits)

lemma statistical_inefficiency_empty_group:
  assumes run: "statistical_inefficiency ts data how column lower upper step conservative rc force
                  = Inr (out, calc)"
    and g: "(name, grp) \<in> set (groupby (sort_index data))"
    and empty: "loc_rows lower upper step (rows grp) = []"
  shows "filter (\<lambda>r. lam r = name) (rows out) = []
       \<and> (\<exists>statinef. statisticalInefficiency ts [] = Inr statinef
            \<and> (rc \<longrightarrow> (\<exists>c. calc = Some c \<and> entry c ''statinef'' name = Some statinef)))"
proof -
  obtain sel statinef where
        ok: "statistical_inefficiency_group ts column lower upper step conservative force grp
               = Inr (sel, statinef)"
    and filt: "filter (\<lambda>r. lam r = name) (rows out) = rows sel"
    and diag: "rc \<longrightarrow> (\<exists>c. calc = Some c \<and> entry c ''statinef'' name = Some statinef)"
    using statistical_inefficiency_group_of_output [OF run g] by blast
  obtain group_s series indices where
        sl: "slicing grp lower upper step False = Inr group_s"
    and col: "getitem group_s column = Inr series"
    and est: "statisticalInefficiency ts series = Inr statinef"
    and range: "\<forall>i \<in> set indices. i < length (rows group_s)"
    and sel: "sel = group_s\<lparr>rows := map (nth (rows group_s)) indices\<rparr>"
    using statistical_inefficiency_group_Inr [OF ok] by blast
  have rows_s: "rows group_s = []" using group_pre_slicing(1) [OF g sl] empty by simp
  have "series = []" using col rows_s by (rule getitem_Nil)
  moreover have "indices = []" using range rows_s by (cases indices) auto
  ultimately show ?thesis using filt sel est diag by simp
qed

lemma equilibrium_detection_empty_group:
  assumes run: "equilibrium_detection ts data how column lower upper step conservative rc force
                  = Inr (out, calc)"
    and g: "(name, grp) \<in> set (groupby (sort_index data))"
    and empty: "loc_rows lower upper step (rows grp) = []"
  shows "filter (\<lambda>r. lam r = name) (rows out) = []
       \<and> (\<exists>t statinef Neff_max. detectEquilibration ts [] = Inr (t, statinef, Neff_max)
            \<and> (rc \<longrightarrow> (\<exists>c. calc = Some c \<and> entry c ''statinef'' name = Some statinef)))"
proof -
  obtain sel statinef where
        ok: "equilibrium_detection_group ts column lower upper step conservative force grp
               = Inr (sel, statinef)"
    and filt: "filter (\<lambda>r. lam r = name) (rows out) = rows sel"
    and diag: "rc \<longrightarrow> (\<exists>c. calc = Some c \<and> entry c ''statinef'' name = Some statinef)"
    using equilibrium_detection_group_of_output [OF run g] by blast
  obtain group_s series t Neff_max indices where
        sl: "slicing grp lower upper step False = Inr group_s"
    and col: "getitem group_s column = Inr series"
    and det: "detectEquilibration ts series = Inr (t, statinef, Neff_max)"
    and range: "\<forall>i \<in> set indices. i < length (drop t (rows group_s))"
    and sel: "sel = group_s\<lparr>rows := map (nth (drop t (rows group_s))) indices\<rparr>"
    using equilibrium_detection_group_Inr [OF ok] by blast
  have rows_s: "rows group_s = []" using group_pre_slicing(1) [OF g sl] empty by simp
  have "series = []" using col rows_s by (rule getitem_Nil)
  moreover have "indices = []" using range rows_s by (cases indices) auto
  ultimately show ?thesis using filt sel det diag by auto
qed

text \<open>
  Claim C3, as the code has it. The spec wants a group that is empty after slicing to be
  skipped quietly, with an undefined inefficiency in the diagnostics. The code has no such
  case: it hands the empty series to the collaborator. When the call returns, the
  collaborator has accepted the empty series, the group has no row in the output, and the
  diagnostics hold the inefficiency the collaborator gave for the empty series; when the
  collaborator fails on the empty series, the call fails.
\<close>

theorem empty_group_is_handed_to_the_collaborator:
  assumes g: "(name, grp) \<in> set (groupby (sort_index data))"
    and empty: "loc_rows lower upper step (rows grp) = []"
  shows "(statistical_inefficiency ts data how column lower upper step conservative rc force
            = Inr (out, calc) \<longrightarrow>
          filter (\<lambda>r. lam r = name) (rows out) = []
          \<and> (\<exists>statinef. statisticalInefficiency ts [] = Inr statinef
               \<and> (rc \<longrightarrow> (\<exists>c. calc = Some c \<and> entry c ''statinef'' name = Some statinef))))
       \<and> (equilibrium_detection ts data how column lower upper step conservative rc force
            = Inr (out', calc') \<longrightarrow>
          filter (\<lambda>r. lam r = name) (rows out') = []
          \<and> (\<exists>t statinef Neff_max. detectEquilibration ts [] = Inr (t, statinef, Neff_max)
               \<and> (rc \<longrightarrow> (\<exists>c. calc' = Some c \<and> entry c ''statinef'' name = Some statinef))))
       \<and> (isl (statisticalInefficiency ts []) \<longrightarrow>
            isl (statistical_inefficiency ts data how column lower upper step conservative rc force))
       \<and> (isl (detectEquilibration ts []) \<longrightarrow>
            isl (equilibrium_detection ts data how column lower upper step conservative rc force))"
proof (intro conjI impI)
  assume "statistical_inefficiency ts data how column lower upper step conservative rc force
            = Inr (out, calc)"
  then show "filter (\<lambda>r. lam r = name) (rows out) = []"
    and "\<exists>statinef. statisticalInefficiency ts [] = Inr statinef
               \<and> (rc \<longrightarrow> (\<exists>c. calc = Some c \<and> entry c ''statinef'' name = Some statinef))"
    using statistical_inefficiency_empty_group [OF _ g empty] by blast+
next
  assume "equilibrium_detection ts data how column lower upper step conservative rc force
            = Inr (out', calc')"
  then show "filter (\<lambda>r. lam r = name) (rows out') = []"
    and "\<exists>t statinef Neff_max. detectEquilibration ts [] = Inr (t, statinef, Neff_max)
               \<and> (rc \<longrightarrow> (\<exists>c. calc' = Some c \<and> entry c ''statinef'' name = Some statinef))"
    using equilibrium_detection_empty_group [OF _ g empty] by blast+
next
  assume fails: "isl (statisticalInefficiency ts [])"
  show "isl (statistical_inefficiency ts data how column lower upper step conservative rc force)"
  proof (rule ccontr)
    assume "\<not> isl (statistical_inefficiency ts data how column lower upper step conservative rc force)"
    then obtain res where
      "statistical_inefficiency ts data how column lower upper step conservative rc force = Inr res"
      by (cases "statistical_inefficiency ts data how column lower upper step conservative rc force")
         simp_all
    then have "\<exists>statinef. statisticalInefficiency ts [] = Inr statinef"
      using statistical_inefficiency_empty_group [OF _ g empty, of ts how column conservative rc force
          "fst res" "snd res"] by auto
    then show False using fails by auto
  qed
next
  assume fails: "isl (detectEquilibration ts [])"
  show "isl (equilibrium_detection ts data how column lower upper step conservative rc force)"
  proof (rule ccontr)
    assume "\<not> isl (equilibrium_detection ts data how column lower upper step conservative rc force)"
    then obtain res where
      "equilibrium_detection ts data how column lower upper step conservative rc force = Inr res"
      by (cases "equilibrium_detection ts data how column lower upper step conservative rc force")
         simp_all
    then have "\<exists>y. detectEquilibration ts [] = Inr y"
      using equilibrium_detection_empty_group [OF _ g empty, of ts how column conservative rc force
          "fst res" "snd res"] by auto
    then show False using fails by auto
  qed
qed


theorem empty_group_is_handed_to_the_collaborator_witness:
  "(0, mk_frame [mk_row 0 (0::nat) 5, mk_row 1 0 6])
      \<in> set (groupby (sort_index (mk_frame [mk_row 0 (0::nat) 5, mk_row 1 0 6])))
   \<and> loc_rows (Some 5) None None (rows (mk_frame [mk_row 0 (0::nat) 5, mk_row 1 0 6])) = []
   \<and> statistical_inefficiency (reporting 0 1 1) (mk_frame [mk_row 0 (0::nat) 5, mk_row 1 0 6])
        Auto (Some ''fep'') (Some 5) None None True True False
      = Inr (mk_frame [], Some [''statinef'' \<mapsto> [0 \<mapsto> 1]])
   \<and> filter (\<lambda>r. lam r = 0) (rows (mk_frame ([] :: nat row list))) = []
   \<and> (\<exists>statinef. statisticalInefficiency (reporting 0 1 1) [] = Inr statinef
          \<and> (\<exists>c. Some [''statinef'' \<mapsto> [0 \<mapsto> 1]] = Some c
                 \<and> entry c ''statinef'' (0::nat) = Some statinef))
   \<and> isl (statisticalInefficiency (reporting_nonempty 0 1 1) [])
   \<and> isl (statistical_inefficiency (reporting_nonempty 0 1 1)
             (mk_frame [mk_row 0 (0::nat) 5, mk_row 1 0 6])
             Auto (Some ''fep'') (Some 5) None None True True False)"
proof -
  let ?F = "mk_frame [mk_row 0 (0::nat) 5, mk_row 1 0 6]"
  have g: "(0, ?F) \<in> set (groupby (sort_index ?F))"
    by (simp add: run_defs)
  have empty: "loc_rows (Some 5) None None (rows ?F) = []"
    by (simp add: loc_rows_def in_bounds_def mk_frame_def mk_row_def)
  have run: "statistical_inefficiency (reporting 0 1 1) ?F
        Auto (Some ''fep'') (Some 5) None None True True False
      = Inr (mk_frame [], Some [''statinef'' \<mapsto> [0 \<mapsto> 1]])"
    by (simp add: run_defs)
  have fails: "isl (statisticalInefficiency (reporting_nonempty 0 1 1) [])"
    by (simp add: reporting_nonempty_def)
  note a = empty_group_is_handed_to_the_collaborator [OF g empty,
      where ts = "reporting 0 1 1" and how = Auto and column = "Some ''fep''"
        and conservative = True and rc = True and force = False
        and out = "mk_frame []" and calc = "Some [''statinef'' \<mapsto> [0 \<mapsto> 1]]"]
  note b = empty_group_is_handed_to_the_collaborator [OF g empty,
      where ts = "reporting_nonempty 0 1 1" and how = Auto and column = "Some ''fep''"
        and conservative = True and rc = True and force = False]
  have a1: "filter (\<lambda>r. lam r = 0) (rows (mk_frame ([] :: nat row list))) = []"
    and a2: "\<exists>statinef. statisticalInefficiency (reporting 0 1 1) [] = Inr statinef
          \<and> (\<exists>c. Some [''statinef'' \<mapsto> [0 \<mapsto> 1]] = Some c
                 \<and> entry c ''statinef'' (0::nat) = Some statinef)"
    using a run by blast+
  have b1: "isl (statistical_inefficiency (reporting_nonempty 0 1 1) ?F
             Auto (Some ''fep'') (Some 5) None None True True False)"
    using b fails by blast
  show ?thesis using g empty run a1 a2 fails b1 by blast
qed

theorem empty_group_raises_or_records_a_number:
  "slicing (mk_frame [mk_row 0 (0::nat) 5, mk_row 1 0 6]) (Some 5) None None False
     = Inr (mk_frame [])
   \<and> statistical_inefficiency (reporting_nonempty 0 1 1)
        (mk_frame [mk_row 0 (0::nat) 5, mk_row 1 0 6])
        Auto (Some ''fep'') (Some 5) None None True True False = Inl ParameterError
   \<and> equilibrium_detection (reporting_nonempty 0 1 1)
        (mk_frame [mk_row 0 (0::nat) 5, mk_row 1 0 6])
        Auto (Some ''fep'') (Some 5) None None True True False = Inl ParameterError
   \<and> statistical_inefficiency (reporting 0 1 1)
        (mk_frame [mk_row 0 (0::nat) 5, mk_row 1 0 6])
        Auto (Some ''fep'') (Some 5) None None True True False
      = Inr (mk_frame [], Some [''statinef'' \<mapsto> [0 \<mapsto> 1]])"
  by (simp add: run_defs)

section \<open>Uniform and fractional strides\<close>

lemma py_round_le:
  assumes "x \<le> of_int m"
  shows "py_round x \<le> m"
proof -
  have fl: "\<lfloor>x\<rfloor> \<le> m" using assms by (simp add: floor_le_iff)
  show ?thesis
  proof (cases "\<lfloor>x\<rfloor> = m")
    case True
    have "of_int \<lfloor>x\<rfloor> \<le> x" by simp
    then have "x = of_int m" using assms True by simp
    then show ?thesis by (simp add: py_round_def)
  next
    case False
    then have "\<lfloor>x\<rfloor> + 1 \<le> m" using fl by simp
    then show ?thesis by (simp add: py_round_def Let_def)
  qed
qed

lemma length_multiples:
  assumes "0 < s"
  shows "length (filter (\<lambda>i. i mod s = 0) [0..<T]) * s < T + s"
proof (induction T)
  case 0
  show ?case using assms by simp
next
  case (Suc T)
  let ?k = "length (filter (\<lambda>i. i mod s = 0) [0..<T])"
  show ?case
  proof (cases "T mod s = 0")
    case True
    then have "s dvd T" by (simp add: mod_eq_0_iff_dvd)
    then obtain m' where "T = s * m'" by (rule dvdE)
    then have "T = m' * s" by (simp only: mult.commute)
    then obtain m where m: "T = m * s" by blast
    have "?k * s < (m + 1) * s" using Suc.IH by (simp add: m)
    then have "?k < m + 1" by (simp only: mult_less_cancel2)
    then have "?k * s \<le> m * s" by simp
    moreover have "m * s = T" using m by simp
    ultimately have le: "?k * s \<le> T" by (rule ord_le_eq_trans)
    have len: "length (filter (\<lambda>i. i mod s = 0) [0..<Suc T]) = Suc ?k" using True by simp
    show ?thesis unfolding len using le by simp
  next
    case False
    then show ?thesis using Suc.IH by simp
  qed
qed

lemma uniform_le_fractional:
  assumes "1 \<le> g"
  shows "length (uniform_indices T g) \<le> length (fractional_indices T g)"
proof -
  let ?s = "nat \<lceil>g\<rceil>"
  let ?k = "length (uniform_indices T g)"
  let ?xs = "map (\<lambda>n. nat (py_round (real n * g))) [0..<Suc T]"
  have s: "0 < ?s" using assms by simp
  have gs: "g \<le> real ?s" using assms by (simp add: of_nat_nat le_of_int_ceiling)
  have bound: "?k * ?s < T + ?s"
    unfolding uniform_indices_def using s by (rule length_multiples)
  have kT: "?k \<le> T"
    unfolding uniform_indices_def using length_filter_le [of "\<lambda>i. i mod ?s = 0" "[0..<T]"] by simp
  have "?k \<le> length (takeWhile (\<lambda>t. t < T) ?xs)"
  proof (rule length_takeWhile_less_P_nth)
    show "?k \<le> length ?xs" using kT by simp
    fix n assume n: "n < ?k"
    then have "Suc n * ?s \<le> ?k * ?s" by (intro mult_le_mono1) simp
    then have ns: "n * ?s < T" using bound by simp
    have "real n * g \<le> real n * real ?s" using gs by (intro mult_left_mono) simp_all
    moreover have "real_of_int (int (n * ?s)) = real n * real ?s"
      by (simp only: of_int_of_nat_eq) (simp only: of_nat_mult)
    ultimately have "real n * g \<le> of_int (int (n * ?s))" by (simp only:)
    then have "py_round (real n * g) \<le> int (n * ?s)" by (rule py_round_le)
    then have "nat (py_round (real n * g)) \<le> n * ?s" by (simp only: nat_le_iff)
    then have "nat (py_round (real n * g)) < T" using ns by simp
    moreover have "n < Suc T" using n kT by simp
    ultimately show "?xs ! n < T" by (simp del: upt_Suc)
  qed
  then show ?thesis by (simp add: fractional_indices_def)
qed

text \<open>
  Claim C9. For a lambda-state group whose estimated inefficiency \<open>g\<close> is above 1,
  \<^verbatim>\<open>statistical_inefficiency\<close> keeps with \<^verbatim>\<open>conservative=True\<close> at most as
  many rows of the group as with \<^verbatim>\<open>conservative=False\<close>: the uniform stride
  \<open>ceil g\<close> gives at most as many positions as the fractional stride.
\<close>

theorem conservative_keeps_no_more_rows:
  assumes sub: "subsampleCorrelatedData ts = subsample_indices"
    and run_c: "statistical_inefficiency ts data how column lower upper step True rc force
                  = Inr (out_c, calc_c)"
    and run_f: "statistical_inefficiency ts data how column lower upper step False rc force
                  = Inr (out_f, calc_f)"
    and g: "(name, grp) \<in> set (groupby (sort_index data))"
    and sl: "slicing grp lower upper step False = Inr group_s"
    and col: "getitem group_s column = Inr series"
    and est: "statisticalInefficiency ts series = Inr statinef"
    and gt: "1 < statinef"
  shows "length (filter (\<lambda>r. lam r = name) (rows out_c))
           \<le> length (filter (\<lambda>r. lam r = name) (rows out_f))"
proof -
  have count: "length (filter (\<lambda>r. lam r = name) (rows out))
             = length (if conservative then uniform_indices (length series) statinef
                       else fractional_indices (length series) statinef)"
    if run: "statistical_inefficiency ts data how column lower upper step conservative rc force
               = Inr (out, calc)"
    for conservative out calc
  proof -
    obtain sel statinef' where
          ok: "statistical_inefficiency_group ts column lower upper step conservative force grp
                 = Inr (sel, statinef')"
      and filt: "filter (\<lambda>r. lam r = name) (rows out) = rows sel"
      using statistical_inefficiency_group_of_output [OF run g] by blast
    obtain group_s' series' indices where
          sl': "slicing grp lower upper step False = Inr group_s'"
      and col': "getitem group_s' column = Inr series'"
      and est': "statisticalInefficiency ts series' = Inr statinef'"
      and sub': "subsampleCorrelatedData ts series' statinef' conservative = Inr indices"
      and sel: "sel = group_s'\<lparr>rows := map (nth (rows group_s')) indices\<rparr>"
      using statistical_inefficiency_group_Inr [OF ok] by blast
    have "group_s' = group_s" using sl sl' by simp
    then have "series' = series" using col col' by simp
    then have "statinef' = statinef" using est est' by simp
    have "indices = (if conservative then uniform_indices (length series) statinef
                     else fractional_indices (length series) statinef)"
      using sub' \<open>series' = series\<close> \<open>statinef' = statinef\<close>
      by (simp add: sub subsample_indices_def)
    then show ?thesis using filt sel by simp
  qed
  have "length (uniform_indices (length series) statinef)
          \<le> length (fractional_indices (length series) statinef)"
    using gt by (intro uniform_le_fractional) simp
  then show ?thesis using count [OF run_c] count [OF run_f] by simp
qed

theorem conservative_keeps_no_more_rows_witness:
  "subsampleCorrelatedData (reporting 0 (3 / 2) 1) = subsample_indices
   \<and> statistical_inefficiency (reporting 0 (3 / 2) 1)
        (mk_frame [mk_row 0 (0::nat) 5, mk_row 1 0 6, mk_row 2 0 7, mk_row 3 0 8])
        Auto (Some ''fep'') None None None True False False
      = Inr (mk_frame [mk_row 0 0 5, mk_row 2 0 7], None)
   \<and> statistical_inefficiency (reporting 0 (3 / 2) 1)
        (mk_frame [mk_row 0 (0::nat) 5, mk_row 1 0 6, mk_row 2 0 7, mk_row 3 0 8])
        Auto (Some ''fep'') None None None False False False
      = Inr (mk_frame [mk_row 0 0 5, mk_row 2 0 7, mk_row 3 0 8], None)
   \<and> statisticalInefficiency (reporting 0 (3 / 2) 1) [5, 6, 7, 8] = Inr (3 / 2)
   \<and> (1::real) < 3 / 2
   \<and> length (filter (\<lambda>r. lam r = 0) (rows (mk_frame [mk_row 0 (0::nat) 5, mk_row 2 0 7])))
       \<le> length (filter (\<lambda>r. lam r = 0)
            (rows (mk_frame [mk_row 0 (0::nat) 5, mk_row 2 0 7, mk_row 3 0 8])))"
proof -
  let ?F = "mk_frame [mk_row 0 (0::nat) 5, mk_row 1 0 6, mk_row 2 0 7, mk_row 3 0 8]"
  let ?ts = "reporting 0 (3 / 2) 1"
  have sub: "subsampleCorrelatedData ?ts = subsample_indices" by (simp add: reporting_def)
  have run_c: "statistical_inefficiency ?ts ?F Auto (Some ''fep'') None None None True False False
      = Inr (mk_frame [mk_row 0 0 5, mk_row 2 0 7], None)"
    by (simp add: run_defs)
  have run_f: "statistical_inefficiency ?ts ?F Auto (Some ''fep'') None None None False False False
      = Inr (mk_frame [mk_row 0 0 5, mk_row 2 0 7, mk_row 3 0 8], None)"
    by (simp add: run_defs)
  have g: "(0, ?F) \<in> set (groupby (sort_index ?F))" by (simp add: run_defs)
  have sl: "slicing ?F None None None False = Inr ?F" by (simp add: run_defs)
  have col: "getitem ?F (Some ''fep'') = Inr [5, 6, 7, 8]"
    by (simp add: getitem_def mk_frame_def mk_row_def)
  have est: "statisticalInefficiency ?ts [5, 6, 7, 8] = Inr (3 / 2)" by (simp add: reporting_def)
  have gt: "(1::real) < 3 / 2" by simp
  show ?thesis
    using sub run_c run_f est gt
      conservative_keeps_no_more_rows [OF sub run_c run_f g sl col est gt]
    by blast
qed

section \<open>What holds for every input where the code departs from the spec\<close>

lemma how_is_never_read:
  "statistical_inefficiency ts data how column lower upper step conservative rc force
     = statistical_inefficiency ts data how' column lower upper step conservative rc force"
  "equilibrium_detection ts data how column lower upper step conservative rc force
     = equilibrium_detection ts data how' column lower upper step conservative rc force"
  by (simp_all add: statistical_inefficiency_def equilibrium_detection_def)

lemma statistical_inefficiency_needs_column:
  "isl (statistical_inefficiency ts data how None lower upper step conservative rc force)"
proof (rule ccontr)
  assume "\<not> isl (statistical_inefficiency ts data how None lower upper step conservative rc force)"
  then obtain res where
    "statistical_inefficiency ts data how None lower upper step conservative rc force = Inr res"
    by (cases "statistical_inefficiency ts data how None lower upper step conservative rc force")
       simp_all
  then have run: "statistical_inefficiency ts data how None lower upper step conservative rc force
      = Inr (fst res, snd res)" by simp
  note si = statistical_inefficiency_Inr [OF run]
  have "groupby (sort_index data) \<noteq> []"
    using si(4) by (simp add: groupby_eq_Nil rows_sort_index_Nil)
  then obtain name grp where g: "(name, grp) \<in> set (groupby (sort_index data))"
    by (cases "groupby (sort_index data)") auto
  obtain sel statinef where
    ok: "statistical_inefficiency_group ts None lower upper step conservative force grp
       = Inr (sel, statinef)"
    using si(1) g by fastforce
  show False using statistical_inefficiency_group_Inr [OF ok] by (auto simp: getitem_def)
qed

lemma equilibrium_detection_needs_column:
  "isl (equilibrium_detection ts data how None lower upper step conservative rc force)"
proof (rule ccontr)
  assume "\<not> isl (equilibrium_detection ts data how None lower upper step conservative rc force)"
  then obtain res where
    "equilibrium_detection ts data how None lower upper step conservative rc force = Inr res"
    by (cases "equilibrium_detection ts data how None lower upper step conservative rc force")
       simp_all
  then have run: "equilibrium_detection ts data how None lower upper step conservative rc force
      = Inr (fst res, snd res)" by simp
  note ed = equilibrium_detection_Inr [OF run]
  have "groupby (sort_index data) \<noteq> []"
    using ed(4) by (simp add: groupby_eq_Nil rows_sort_index_Nil)
  then obtain name grp where g: "(name, grp) \<in> set (groupby (sort_index data))"
    by (cases "groupby (sort_index data)") auto
  obtain sel statinef where
    ok: "equilibrium_detection_group ts None lower upper step conservative force grp
       = Inr (sel, statinef)"
    using ed(1) g by fastforce
  show False using equilibrium_detection_group_Inr [OF ok] by (auto simp: getitem_def)
qed

lemma entry_fold_same:
  assumes "entry c0 ''t'' name = entry c0 ''statinef'' name"
    and "entry c0 ''Neff_max'' name = entry c0 ''statinef'' name"
  shows "entry (fold (\<lambda>(name, grp) c. setitem (setitem (setitem c
                  ''t'' name (V grp)) ''statinef'' name (V grp)) ''Neff_max'' name (V grp))
                gs c0) ''t'' name
       = entry (fold (\<lambda>(name, grp) c. setitem (setitem (setitem c
                  ''t'' name (V grp)) ''statinef'' name (V grp)) ''Neff_max'' name (V grp))
                gs c0) ''statinef'' name
       \<and> entry (fold (\<lambda>(name, grp) c. setitem (setitem (setitem c
                  ''t'' name (V grp)) ''statinef'' name (V grp)) ''Neff_max'' name (V grp))
                gs c0) ''Neff_max'' name
       = entry (fold (\<lambda>(name, grp) c. setitem (setitem (setitem c
                  ''t'' name (V grp)) ''statinef'' name (V grp)) ''Neff_max'' name (V grp))
                gs c0) ''statinef'' name"
  using assms
proof (induction gs arbitrary: c0)
  case Nil
  then show ?case by simp
next
  case (Cons ng gs)
  obtain n g where ng: "ng = (n, g)" by (cases ng)
  let ?c1 = "setitem (setitem (setitem c0 ''t'' n (V g)) ''statinef'' n (V g)) ''Neff_max'' n (V g)"
  have "entry ?c1 ''t'' name = entry ?c1 ''statinef'' name"
    and "entry ?c1 ''Neff_max'' name = entry ?c1 ''statinef'' name"
    using Cons.prems by (simp_all add: entry_setitem)
  then show ?case using Cons.IH [of ?c1] by (simp add: ng)
qed

lemma equilibrium_detection_calculated_entries:
  assumes "equilibrium_detection ts data how column lower upper step conservative True force
             = Inr (out, Some calculated)"
  shows "entry calculated ''t'' name = entry calculated ''statinef'' name"
    and "entry calculated ''Neff_max'' name = entry calculated ''statinef'' name"
proof -
  let ?V = "\<lambda>grp. snd (projr (equilibrium_detection_group ts column lower upper step
                                conservative force grp))"
  have c: "calculated = fold (\<lambda>(name, grp) c. setitem (setitem (setitem c
                  ''t'' name (?V grp)) ''statinef'' name (?V grp)) ''Neff_max'' name (?V grp))
                (groupby (sort_index data)) Map.empty"
    using equilibrium_detection_Inr(3) [OF assms] by simp
  have e: "entry (Map.empty :: 'a calculated) ''t'' name = entry Map.empty ''statinef'' name"
    "entry (Map.empty :: 'a calculated) ''Neff_max'' name = entry Map.empty ''statinef'' name"
    by (simp_all add: entry_def)
  show "entry calculated ''t'' name = entry calculated ''statinef'' name"
    and "entry calculated ''Neff_max'' name = entry calculated ''statinef'' name"
    unfolding c using entry_fold_same [where V = ?V, OF e] by blast+
qed

lemma slicing_loop_Inl:
  assumes "step \<noteq> Some 0"
  shows "for_groups (slicing_body lower upper step force) gs rd = Inl e \<longleftrightarrow>
           e = KeyError_duplicate_times \<and> \<not> force \<and>
           (\<exists>(name, grp) \<in> set gs. \<not> distinct (map time (loc_rows lower upper step (rows grp))))"
proof (induction gs arbitrary: rd)
  case Nil
  show ?case by simp
next
  case (Cons ng gs)
  obtain name grp where ng: "ng = (name, grp)" by (cases ng)
  show ?case
  proof (cases "\<not> force \<and> \<not> distinct (map time (loc_rows lower upper step (rows grp)))")
    case True
    then have "slicing_group lower upper step force grp = Inl KeyError_duplicate_times"
      using assms by (simp add: slicing_group_eq)
    then show ?thesis using True by (auto simp: ng slicing_body_eq)
  next
    case False
    then have "slicing_group lower upper step force grp
                 = Inr (grp\<lparr>rows := loc_rows lower upper step (rows grp)\<rparr>)"
      using assms by (auto simp: slicing_group_eq)
    then have "for_groups (slicing_body lower upper step force) (ng # gs) rd
             = for_groups (slicing_body lower upper step force) gs
                 (rd @ [grp\<lparr>rows := loc_rows lower upper step (rows grp)\<rparr>])"
      by (simp add: ng slicing_body_eq)
    then show ?thesis
      using Cons.IH [of "rd @ [grp\<lparr>rows := loc_rows lower upper step (rows grp)\<rparr>]"] False
      by (auto simp: ng)
  qed
qed

lemma slicing_duplicate_times_iff:
  assumes "step \<noteq> Some 0"
  shows "slicing data lower upper step force = Inl KeyError_duplicate_times \<longleftrightarrow>
           \<not> force \<and> (\<exists>(name, grp) \<in> set (groupby (sort_index data)).
                          \<not> distinct (map time (loc_rows lower upper step (rows grp))))"
proof (cases "for_groups (slicing_body lower upper step force) (groupby (sort_index data)) []")
  case (Inl e)
  then show ?thesis
    using slicing_loop_Inl [OF assms, of lower upper force "groupby (sort_index data)" "[]" e]
    by (auto simp: slicing_def)
next
  case (Inr resdata)
  have no: "\<not> (\<not> force \<and> (\<exists>(name, grp) \<in> set (groupby (sort_index data)).
                  \<not> distinct (map time (loc_rows lower upper step (rows grp)))))"
    using slicing_loop_Inl [OF assms, of lower upper force "groupby (sort_index data)" "[]"
        KeyError_duplicate_times] Inr by auto
  have "pd_concat resdata \<noteq> Inl KeyError_duplicate_times"
    by (cases resdata) (simp_all add: pd_concat_def)
  then show ?thesis using no Inr by (simp add: slicing_def)
qed

end
